theory Spec2Isabelle
  imports Complex_Main "HOL-Library.Log_Nat"
begin

section \<open>The speaking-test scorer of \<^verbatim>\<open>src/components/Footer.tsx\<close>\<close>

text \<open>
  The component \<^verbatim>\<open>SkillTest\<close> scores a spoken transcript against a reference story:
  both texts are normalised into word tokens, a greedy pass with a six-word lookahead
  window aligns the target words with the spoken words (exact match, or Levenshtein
  distance within a small threshold), and the share of matched target words becomes a
  percentage. This theory embeds \<^verbatim>\<open>getLevenshteinDistance\<close> (lines 120-151) and
  \<^verbatim>\<open>calculateSpeakingScore\<close> (lines 779-833) and proves their properties.

  A JavaScript string is a sequence of UTF-16 code units; \<^verbatim>\<open>length\<close>, \<^verbatim>\<open>charAt\<close> and
  \<^verbatim>\<open>===\<close> work on code units. The edit distance is modelled over lists of any element
  type. The normaliser is modelled over \<^typ>\<open>string\<close>, whose characters stand for the code
  units U+0000 to U+00FF.
\<close>

subsection \<open>Arrays\<close>

text \<open>
  \<^verbatim>\<open>xs[i] = v\<close> on a JavaScript array overwrites an element in range and extends the
  array by one element when \<open>i\<close> is its length. Every write of the modelled code is at an
  index that is at most the length.
\<close>

definition js_assign :: "'a list \<Rightarrow> nat \<Rightarrow> 'a \<Rightarrow> 'a list" where
  "js_assign xs i v = (if i < length xs then xs[i := v] else xs @ [v])"

text \<open>\<^verbatim>\<open>matrix[i][j] = v\<close>: row \<open>i\<close> of the matrix is updated in place.\<close>

definition set_cell :: "nat list list \<Rightarrow> nat \<Rightarrow> nat \<Rightarrow> nat \<Rightarrow> nat list list" where
  "set_cell matrix i j v = matrix[i := js_assign (matrix ! i) j v]"

subsection \<open>getLevenshteinDistance\<close>

text \<open>
  The body of the inner loop, for \<open>1 \<le> i \<le> |b|\<close> and \<open>1 \<le> j \<le> |a|\<close>:
  \<^verbatim>\<open>
  if (b.charAt(i - 1) === a.charAt(j - 1)) {
      matrix[i][j] = matrix[i - 1][j - 1];
  } else {
      matrix[i][j] = Math.min(matrix[i - 1][j - 1] + 1,
                              Math.min(matrix[i][j - 1] + 1, matrix[i - 1][j] + 1));
  }
  \<close>
\<close>

definition cell :: "'a list \<Rightarrow> 'a list \<Rightarrow> nat list list \<Rightarrow> nat \<Rightarrow> nat \<Rightarrow> nat" where
  "cell a b matrix i j =
     (if b ! (i - 1) = a ! (j - 1) then matrix ! (i - 1) ! (j - 1)
      else min (matrix ! (i - 1) ! (j - 1) + 1)
               (min (matrix ! i ! (j - 1) + 1) (matrix ! (i - 1) ! j + 1)))"

text \<open>
  The function: two early returns, the loop \<^verbatim>\<open>matrix[i] = [i]\<close> for \<open>i = 0..|b|\<close>, the
  loop \<^verbatim>\<open>matrix[0][j] = j\<close> for \<open>j = 0..|a|\<close>, the nested loops over \<open>i = 1..|b|\<close> and
  \<open>j = 1..|a|\<close>, and the result \<^verbatim>\<open>matrix[b.length][a.length]\<close>. A \<^verbatim>\<open>for\<close> loop over a fixed
  range of indices is a \<^const>\<open>fold\<close> over the list of these indices.
\<close>

definition getLevenshteinDistance :: "'a list \<Rightarrow> 'a list \<Rightarrow> nat" where
  "getLevenshteinDistance a b =
     (if length a = 0 then length b
      else if length b = 0 then length a
      else
        let matrix0 = fold (\<lambda>i matrix. js_assign matrix i [i]) [0..<Suc (length b)] [];
            matrix1 = fold (\<lambda>j matrix. set_cell matrix 0 j j) [0..<Suc (length a)] matrix0;
            matrix2 = fold (\<lambda>i. fold (\<lambda>j matrix. set_cell matrix i j (cell a b matrix i j))
                                      [1..<Suc (length a)])
                           [1..<Suc (length b)] matrix1
        in matrix2 ! length b ! length a)"

subsection \<open>Edit distance, as the specification words it\<close>

text \<open>
  One edit turns \<open>x\<close> into \<open>y\<close> by inserting one character somewhere, deleting one
  character, or substituting one character by a different one.
\<close>

definition edit1 :: "'a list \<Rightarrow> 'a list \<Rightarrow> bool" where
  "edit1 x y \<longleftrightarrow>
     (\<exists>u v c. x = u @ v \<and> y = u @ c # v) \<or>
     (\<exists>u v c. x = u @ c # v \<and> y = u @ v) \<or>
     (\<exists>u v c d. c \<noteq> d \<and> x = u @ c # v \<and> y = u @ d # v)"

text \<open>
  The minimum number of single-character insertions, deletions or substitutions that
  transform \<open>a\<close> into \<open>b\<close>: the least \<open>n\<close> such that \<open>n\<close> edits lead from \<open>a\<close> to \<open>b\<close>.
\<close>

definition min_edits :: "'a list \<Rightarrow> 'a list \<Rightarrow> nat" where
  "min_edits a b = (LEAST n. (edit1 ^^ n) a b)"

text \<open>
  The recurrence that the matrix tabulates, on the reversed prefixes (the loops compare
  the last characters of the prefixes): entry \<open>(i, j)\<close> of the matrix is
  \<open>lev_rec (rev (take j a)) (rev (take i b))\<close>.
\<close>

fun lev_rec :: "'a list \<Rightarrow> 'a list \<Rightarrow> nat" where
  "lev_rec [] ys = length ys"
| "lev_rec (x # xs) [] = Suc (length xs)"
| "lev_rec (x # xs) (y # ys) =
     (if y = x then lev_rec xs ys
      else min (lev_rec xs ys + 1) (min (lev_rec xs (y # ys) + 1) (lev_rec (x # xs) ys + 1)))"

definition D :: "'a list \<Rightarrow> 'a list \<Rightarrow> nat \<Rightarrow> nat \<Rightarrow> nat" where
  "D a b i j = lev_rec (rev (take j a)) (rev (take i b))"

text \<open>
  The state of the matrix after the rows \<open>0..k\<close> are complete: these rows hold the
  distances of the prefixes, the rows below still hold their first column only.
\<close>

definition filled :: "'a list \<Rightarrow> 'a list \<Rightarrow> nat \<Rightarrow> nat list list \<Rightarrow> bool" where
  "filled a b k matrix \<longleftrightarrow>
     length matrix = Suc (length b) \<and>
     (\<forall>i \<le> k. matrix ! i = map (D a b i) [0..<Suc (length a)]) \<and>
     (\<forall>i. k < i \<and> i \<le> length b \<longrightarrow> matrix ! i = [i])"

text \<open>
  Alignments: \<open>align n x y\<close> holds when \<open>x\<close> can be rewritten into \<open>y\<close> from left to
  right at cost \<open>n\<close>, copying a character for free and paying one for each replaced,
  inserted or deleted character.
\<close>

inductive align :: "nat \<Rightarrow> 'a list \<Rightarrow> 'a list \<Rightarrow> bool" where
  align_Nil: "align 0 [] []"
| align_copy: "align n x y \<Longrightarrow> align n (a # x) (a # y)"
| align_repl: "align n x y \<Longrightarrow> align (Suc n) (a # x) (b # y)"
| align_ins: "align n x y \<Longrightarrow> align (Suc n) x (b # y)"
| align_del: "align n x y \<Longrightarrow> align (Suc n) (a # x) y"

subsection \<open>JavaScript numbers\<close>

text \<open>
  A JavaScript number is an IEEE 754 double. The scorer computes
  \<^verbatim>\<open>Math.round((matches / targetWords.length) * 100)\<close> on two non-negative integers, so the
  values that arise are finite and non-negative, \<^verbatim>\<open>NaN\<close> (from \<open>0 / 0\<close>) or \<^verbatim>\<open>Infinity\<close>
  (from \<open>m / 0\<close>). A finite double is modelled by the rational number it denotes.
\<close>

datatype jsnum = Num rat | Infinity | NaN

text \<open>
  \<open>binade x\<close> is the exponent \<open>e\<close> with \<open>2\<^sup>e \<le> x < 2\<^sup>e\<^sup>+\<^sup>1\<close> of a positive rational: the
  difference of the bit lengths of numerator and denominator, or one less.
\<close>

definition binade :: "rat \<Rightarrow> int" where
  "binade x = (let (p, q) = quotient_of x; d = bitlen p - bitlen q
               in if 2 powi d \<le> x then d else d - 1)"

definition round_half_even :: "rat \<Rightarrow> int" where
  "round_half_even x =
     (let f = \<lfloor>x\<rfloor>; r = x - of_int f
      in if r < 1/2 then f else if 1/2 < r then f + 1 else if even f then f else f + 1)"

text \<open>
  \<open>fl64 x\<close> is the double nearest to a non-negative rational \<open>x\<close> (round to nearest, ties
  to even, 53 significant bits): \<open>x\<close> is rounded to a multiple of the unit in the last
  place of its binade. Overflow and subnormal numbers do not arise for quotients of list
  lengths.
\<close>

definition fl64 :: "rat \<Rightarrow> rat" where
  "fl64 x = (if x = 0 then 0
             else let ulp = 2 powi (binade x - 52)
                  in of_int (round_half_even (x / ulp)) * ulp)"

text \<open>\<^verbatim>\<open>m / n\<close> for two non-negative integers.\<close>

definition js_div :: "nat \<Rightarrow> nat \<Rightarrow> jsnum" where
  "js_div m n = (if n = 0 then (if m = 0 then NaN else Infinity)
                 else Num (fl64 (of_nat m / of_nat n)))"

text \<open>\<^verbatim>\<open>x * c\<close> for a non-negative \<open>x\<close> and a positive constant \<open>c\<close>.\<close>

definition js_times :: "jsnum \<Rightarrow> rat \<Rightarrow> jsnum" where
  "js_times x c = (case x of Num r \<Rightarrow> Num (fl64 (r * c)) | Infinity \<Rightarrow> Infinity | NaN \<Rightarrow> NaN)"

text \<open>\<^verbatim>\<open>Math.round\<close>: the nearest integer, a tie going up.\<close>

definition Math_round :: "jsnum \<Rightarrow> jsnum" where
  "Math_round x = (case x of Num r \<Rightarrow> Num (of_int \<lfloor>r + 1/2\<rfloor>) | Infinity \<Rightarrow> Infinity | NaN \<Rightarrow> NaN)"

text \<open>\<^verbatim>\<open>Math.min(c, x)\<close> and \<^verbatim>\<open>x >= c\<close> for a finite constant \<open>c\<close>.\<close>

definition Math_min :: "rat \<Rightarrow> jsnum \<Rightarrow> jsnum" where
  "Math_min c x = (case x of Num r \<Rightarrow> Num (min c r) | Infinity \<Rightarrow> Num c | NaN \<Rightarrow> NaN)"

definition js_ge :: "jsnum \<Rightarrow> rat \<Rightarrow> bool" where
  "js_ge x c = (case x of Num r \<Rightarrow> c \<le> r | Infinity \<Rightarrow> True | NaN \<Rightarrow> False)"

subsection \<open>normalize\<close>

text \<open>
  \<^verbatim>\<open>const normalize = (s) =>
     s.toLowerCase().replace(/[^\w\s]|_/g, "").replace(/\s+/g, " ").trim();\<close>

  On the code units U+0000 to U+00FF, \<^verbatim>\<open>toLowerCase\<close> maps \<open>A-Z\<close> and the Latin-1 capitals
  U+00C0 to U+00DE (without the multiplication sign U+00D7) to the code unit 32 above,
  \<^verbatim>\<open>\w\<close> is \<open>[A-Za-z0-9_]\<close>, and \<^verbatim>\<open>\s\<close> as well as the characters that \<^verbatim>\<open>trim\<close> strips are
  tab, line feed, vertical tab, form feed, carriage return, space and no-break space.
\<close>

definition upper_char :: "char \<Rightarrow> bool" where
  "upper_char c \<longleftrightarrow> (let n = of_char c :: nat
                     in (65 \<le> n \<and> n \<le> 90) \<or> (192 \<le> n \<and> n \<le> 222 \<and> n \<noteq> 215))"

definition toLowerCase_unit :: "char \<Rightarrow> char" where
  "toLowerCase_unit c = (if upper_char c then char_of (of_char c + 32 :: nat) else c)"

definition toLowerCase :: "string \<Rightarrow> string" where
  "toLowerCase s = map toLowerCase_unit s"

definition word_char :: "char \<Rightarrow> bool" where
  "word_char c \<longleftrightarrow> (let n = of_char c :: nat
                    in (48 \<le> n \<and> n \<le> 57) \<or> (65 \<le> n \<and> n \<le> 90) \<or> n = 95 \<or> (97 \<le> n \<and> n \<le> 122))"

definition space_char :: "char \<Rightarrow> bool" where
  "space_char c \<longleftrightarrow> (let n = of_char c :: nat in (9 \<le> n \<and> n \<le> 13) \<or> n = 32 \<or> n = 160)"

text \<open>\<^verbatim>\<open>replace(/[^\w\s]|_/g, "")\<close> deletes every character that the pattern matches.\<close>

definition strip_punct :: "string \<Rightarrow> string" where
  "strip_punct s = filter (\<lambda>c. \<not> ((\<not> (word_char c \<or> space_char c)) \<or> c = CHR ''_'')) s"

text \<open>
  \<^verbatim>\<open>replace(/\s+/g, " ")\<close> replaces every maximal run of whitespace by one space: at a
  whitespace character the greedy match consumes the whole run.
\<close>

function collapse_spaces :: "string \<Rightarrow> string" where
  "collapse_spaces [] = []"
| "collapse_spaces (c # cs) =
     (if space_char c then CHR '' '' # collapse_spaces (dropWhile space_char cs)
      else c # collapse_spaces cs)"
  by pat_completeness auto
termination
  by (relation "measure length") (auto simp: length_dropWhile_le less_Suc_eq_le)

definition trim :: "string \<Rightarrow> string" where
  "trim s = rev (dropWhile space_char (rev (dropWhile space_char s)))"

text \<open>The function \<^verbatim>\<open>normalize\<close>; \<open>normalize\<close> itself is a constant of HOL.\<close>

definition normalize_text :: "string \<Rightarrow> string" where
  "normalize_text s = trim (collapse_spaces (strip_punct (toLowerCase s)))"

text \<open>
  \<^verbatim>\<open>split(" ")\<close> cuts at every single space; the empty string yields one empty token.
  The result is never the empty list (lemma \<open>split_space_not_Nil\<close>), so the head
  and the tail of the recursive result exist.
\<close>

fun split_space :: "string \<Rightarrow> string list" where
  "split_space [] = [[]]"
| "split_space (c # cs) =
     (if c = CHR '' '' then [] # split_space cs
      else (c # hd (split_space cs)) # tl (split_space cs))"

subsection \<open>calculateSpeakingScore\<close>

definition SEARCH_WINDOW :: nat where
  "SEARCH_WINDOW = 6"

text \<open>\<^verbatim>\<open>const allowedEdits = targetWord.length > 5 ? 2 : 1;\<close>\<close>

definition allowedEdits :: "string \<Rightarrow> nat" where
  "allowedEdits targetWord = (if length targetWord > 5 then 2 else 1)"

text \<open>
  The inner loop, from the index \<open>i\<close> on:
  \<^verbatim>\<open>
  for (let i = spokenIdx; i < Math.min(spokenIdx + SEARCH_WINDOW, spokenWords.length); i++) {
      const spokenWord = spokenWords[i];
      if (spokenWord === targetWord) { matches++; spokenIdx = i + 1; foundMatch = true; break; }
      const allowedEdits = targetWord.length > 5 ? 2 : 1;
      const dist = getLevenshteinDistance(targetWord, spokenWord);
      if (dist <= allowedEdits) { matches++; spokenIdx = i + 1; foundMatch = true; break; }
  }
  \<close>
  The result is the index at which the loop breaks, or \<open>None\<close> when it runs to the end of
  the window. \<open>spokenIdx\<close> changes only together with a \<^verbatim>\<open>break\<close>, so the bound of the
  loop is fixed while it runs.
\<close>

function searchWindow :: "string \<Rightarrow> string list \<Rightarrow> nat \<Rightarrow> nat \<Rightarrow> nat option" where
  "searchWindow targetWord spokenWords spokenIdx i =
     (if i < min (spokenIdx + SEARCH_WINDOW) (length spokenWords) then
        (if spokenWords ! i = targetWord then Some i
         else if getLevenshteinDistance targetWord (spokenWords ! i) \<le> allowedEdits targetWord
              then Some i
         else searchWindow targetWord spokenWords spokenIdx (i + 1))
      else None)"
  by pat_completeness auto
termination
  by (relation "measure (\<lambda>(t, ws, idx, i). min (idx + SEARCH_WINDOW) (length ws) - i)") auto

text \<open>The variables of the outer loop, and its body for one target word.\<close>

record align_state =
  matches :: nat
  spokenIdx :: nat

definition matchWord :: "string list \<Rightarrow> string \<Rightarrow> align_state \<Rightarrow> align_state" where
  "matchWord spokenWords targetWord st =
     (case searchWindow targetWord spokenWords (spokenIdx st) (spokenIdx st) of
        Some i \<Rightarrow> \<lparr>matches = matches st + 1, spokenIdx = i + 1\<rparr>
      | None \<Rightarrow> st)"

text \<open>\<^verbatim>\<open>let matches = 0; let spokenIdx = 0; for (const targetWord of targetWords) { ... }\<close>\<close>

definition alignLoop :: "string list \<Rightarrow> string list \<Rightarrow> align_state" where
  "alignLoop targetWords spokenWords =
     fold (matchWord spokenWords) targetWords \<lparr>matches = 0, spokenIdx = 0\<rparr>"

text \<open>
  The state of the component that the function writes: \<^verbatim>\<open>pronunciationScore\<close>
  (\<^verbatim>\<open>number | null\<close>, initially \<^verbatim>\<open>null\<close>) and \<^verbatim>\<open>score\<close> (\<^verbatim>\<open>{correct, total}\<close>, initially
  \<^verbatim>\<open>{correct: 0, total: 0}\<close>). The field \<^verbatim>\<open>total\<close> is written \<open>total'\<close>, since \<open>total\<close> is a
  constant of HOL.
\<close>

record test_score =
  correct :: nat
  total' :: nat

record skill_state =
  pronunciationScore :: "jsnum option"
  score :: test_score

definition initialState :: skill_state where
  "initialState = \<lparr>pronunciationScore = None, score = \<lparr>correct = 0, total' = 0\<rparr>\<rparr>"

text \<open>
  \<^verbatim>\<open>const calculatedScore = Math.round((matches / targetWords.length) * 100);\<close>
\<close>

definition calculatedScore :: "string list \<Rightarrow> string list \<Rightarrow> jsnum" where
  "calculatedScore targetWords spokenWords =
     Math_round (js_times (js_div (matches (alignLoop targetWords spokenWords))
                                  (length targetWords)) 100)"

text \<open>
  The function from the two token sequences on: the early return on no speech, then
  \<^verbatim>\<open>setPronunciationScore(Math.min(100, calculatedScore))\<close> and
  \<^verbatim>\<open>setScore({correct: calculatedScore >= 70 ? 1 : 0, total: 1})\<close>.
\<close>

definition scoreWords :: "string list \<Rightarrow> string list \<Rightarrow> skill_state \<Rightarrow> skill_state" where
  "scoreWords targetWords spokenWords st =
     (if length spokenWords = 0 \<or> (length spokenWords = 1 \<and> spokenWords ! 0 = '''')
      then st\<lparr>pronunciationScore := Some (Num 0)\<rparr>
      else st\<lparr>pronunciationScore := Some (Math_min 100 (calculatedScore targetWords spokenWords)),
              score := \<lparr>correct = (if js_ge (calculatedScore targetWords spokenWords) 70 then 1 else 0),
                        total' = 1\<rparr>\<rparr>)"

text \<open>
  The whole function: \<^verbatim>\<open>speakingData\<close> is \<^verbatim>\<open>null\<close> or holds the story, \<^verbatim>\<open>spokenText\<close> is a
  string (so \<^verbatim>\<open>spokenText || ""\<close> is \<^verbatim>\<open>spokenText\<close>).
\<close>

definition calculateSpeakingScore :: "string option \<Rightarrow> string \<Rightarrow> skill_state \<Rightarrow> skill_state" where
  "calculateSpeakingScore speakingData spokenText st =
     (case speakingData of
        None \<Rightarrow> st
      | Some story \<Rightarrow>
          scoreWords (split_space (normalize_text story)) (split_space (normalize_text spokenText)) st)"

subsection \<open>Notions used in the statements\<close>

text \<open>A lowercase letter \<open>a-z\<close> or a digit.\<close>

definition lower_alnum :: "char \<Rightarrow> bool" where
  "lower_alnum c \<longleftrightarrow>
     (let n = of_char c :: nat in (48 \<le> n \<and> n \<le> 57) \<or> (97 \<le> n \<and> n \<le> 122))"

definition adjacent_spaces :: "string \<Rightarrow> bool" where
  "adjacent_spaces z \<longleftrightarrow> (\<exists>u v. z = u @ CHR '' '' # CHR '' '' # v)"

text \<open>A candidate makes the inner loop break: it is an exact or a fuzzy match.\<close>

definition candidateMatches :: "string \<Rightarrow> string \<Rightarrow> bool" where
  "candidateMatches targetWord spokenWord \<longleftrightarrow>
     spokenWord = targetWord \<or>
     getLevenshteinDistance targetWord spokenWord \<le> allowedEdits targetWord"

text \<open>
  The variables of the outer loop after its first \<open>k\<close> iterations, and the index that
  the search for target word \<open>k\<close> finds.
\<close>

definition stateAt :: "string list \<Rightarrow> string list \<Rightarrow> nat \<Rightarrow> align_state" where
  "stateAt targetWords spokenWords k =
     fold (matchWord spokenWords) (take k targetWords) \<lparr>matches = 0, spokenIdx = 0\<rparr>"

definition matchedAt :: "string list \<Rightarrow> string list \<Rightarrow> nat \<Rightarrow> nat option" where
  "matchedAt targetWords spokenWords k =
     searchWindow (targetWords ! k) spokenWords
       (spokenIdx (stateAt targetWords spokenWords k)) (spokenIdx (stateAt targetWords spokenWords k))"

section \<open>Properties of the edit distance\<close>

text \<open>
  The recurrence is symmetric and grows by at most one with an added character. It is a
  lower bound of the cost of every alignment, a single edit after an alignment costs at
  most one more, and so \<open>n\<close> edits never lead to a word at a larger distance than \<open>n\<close>;
  conversely the recurrence is reached by that many edits. The loops of
  \<^verbatim>\<open>getLevenshteinDistance\<close> fill the matrix with the values of the recurrence.
\<close>

lemma lev_rec_Nil2: "lev_rec xs [] = length xs"
  by (cases xs) simp_all

lemma lev_rec_sym: "lev_rec xs ys = lev_rec ys xs"
  by (induction xs ys rule: lev_rec.induct) (auto simp: lev_rec_Nil2 min.commute min.left_commute)

lemma lev_rec_head:
  "lev_rec x (b # y) \<le> lev_rec x y + 1 \<and> lev_rec x y \<le> lev_rec (a # x) y + 1"
proof (induction "length x + length y" arbitrary: x y a b rule: less_induct)
  case less
  have i: "lev_rec x (b # y) \<le> lev_rec x y + 1"
  proof (cases x)
    case Nil then show ?thesis by simp
  next
    case (Cons a' x0)
    have "lev_rec x0 y \<le> lev_rec (a' # x0) y + 1"
      using less[of x0 y] Cons by simp
    then show ?thesis using Cons by (auto simp: min_def)
  qed
  have iv: "lev_rec x y \<le> lev_rec (a # x) y + 1"
  proof (cases y)
    case Nil then show ?thesis by (simp add: lev_rec_Nil2)
  next
    case (Cons b' y0)
    have 1: "lev_rec x (b' # y0) \<le> lev_rec x y0 + 1"
      using less[of x y0] Cons by simp
    have 2: "lev_rec x y0 \<le> lev_rec (a # x) y0 + 1"
      using less[of x y0] Cons by simp
    show ?thesis using Cons 1 2 by (auto simp: min_def)
  qed
  show ?case using i iv by simp
qed

lemma lev_rec_ins: "lev_rec x (b # y) \<le> Suc (lev_rec x y)"
  using lev_rec_head[of x b y] by simp

lemma lev_rec_del: "lev_rec (a # x) y \<le> Suc (lev_rec x y)"
  using lev_rec_ins[of y a x] by (simp add: lev_rec_sym)

lemma lev_rec_repl: "lev_rec (a # x) (b # y) \<le> Suc (lev_rec x y)"
  by (auto simp: min_def)

lemma align_lower: "align n x y \<Longrightarrow> lev_rec x y \<le> n"
proof (induction rule: align.induct)
  case align_Nil
  show ?case by simp
next
  case (align_copy n x y a)
  then show ?case by simp
next
  case (align_repl n x y a b)
  then show ?case using lev_rec_repl[of a x b y] by linarith
next
  case (align_ins n x y b)
  then show ?case using lev_rec_ins[of x b y] by linarith
next
  case (align_del n x y a)
  then show ?case using lev_rec_del[of a x y] by linarith
qed

lemma align_refl: "align 0 x x"
  by (induction x) (auto intro: align.intros)

lemma edit1_Nil: "edit1 [] y \<Longrightarrow> \<exists>c. y = [c]"
  by (auto simp: edit1_def)

lemma edit1_Cons_cases:
  assumes "edit1 (a # z) y"
  shows "(\<exists>c. y = c # a # z) \<or> y = z \<or> (\<exists>c. y = c # z) \<or> (\<exists>y'. y = a # y' \<and> edit1 z y')"
  using assms unfolding edit1_def
  by (auto simp: Cons_eq_append_conv) blast+

lemma edit1_Cons: "edit1 x y \<Longrightarrow> edit1 (a # x) (a # y)"
  unfolding edit1_def
  by (metis append_Cons)

lemma edit1_ins_head: "edit1 x (c # x)"
  unfolding edit1_def by (metis append_Nil)

lemma edit1_del_head: "edit1 (c # x) x"
  unfolding edit1_def by (metis append_Nil)

lemma edit1_sub_head: "c \<noteq> d \<Longrightarrow> edit1 (c # x) (d # x)"
  unfolding edit1_def by (metis append_Nil)

lemma align_edit1:
  "align n x z \<Longrightarrow> edit1 z y \<Longrightarrow> \<exists>m \<le> Suc n. align m x y"
proof (induction arbitrary: y rule: align.induct)
  case align_Nil
  then obtain c where "y = [c]" using edit1_Nil by blast
  then have "align (Suc 0) [] y" using align.align_ins[OF align.align_Nil, of c] by simp
  then show ?case by (intro exI[of _ "Suc 0"]) simp
next
  case (align_copy n x z a)
  have base: "align n (a # x) (a # z)" by (rule align.align_copy) (rule align_copy.hyps)
  from edit1_Cons_cases[OF align_copy.prems]
  consider (i) c where "y = c # a # z" | (d) "y = z" | (s) c where "y = c # z"
    | (c) y' where "y = a # y'" "edit1 z y'" by blast
  then show ?case
  proof cases
    case i
    then have "align (Suc n) (a # x) y" using align.align_ins[OF base] by simp
    then show ?thesis by (intro exI[of _ "Suc n"]) simp
  next
    case d
    then have "align (Suc n) (a # x) y" using align.align_del[OF align_copy.hyps] by simp
    then show ?thesis by (intro exI[of _ "Suc n"]) simp
  next
    case s
    then have "align (Suc n) (a # x) y" using align.align_repl[OF align_copy.hyps] by simp
    then show ?thesis by (intro exI[of _ "Suc n"]) simp
  next
    case c
    then obtain m where m: "m \<le> Suc n" "align m x y'" using align_copy.IH by blast
    have "align m (a # x) y" using align.align_copy[OF m(2)] c(1) by simp
    then show ?thesis using m(1) by (intro exI[of _ m]) simp
  qed
next
  case (align_repl n x z a b)
  have base: "align (Suc n) (a # x) (b # z)" by (rule align.align_repl) (rule align_repl.hyps)
  from edit1_Cons_cases[OF align_repl.prems]
  consider (i) c where "y = c # b # z" | (d) "y = z" | (s) c where "y = c # z"
    | (c) y' where "y = b # y'" "edit1 z y'" by blast
  then show ?case
  proof cases
    case i
    then have "align (Suc (Suc n)) (a # x) y" using align.align_ins[OF base] by simp
    then show ?thesis by (intro exI[of _ "Suc (Suc n)"]) simp
  next
    case d
    then have "align (Suc n) (a # x) y" using align.align_del[OF align_repl.hyps] by simp
    then show ?thesis by (intro exI[of _ "Suc n"]) simp
  next
    case s
    then have "align (Suc n) (a # x) y" using align.align_repl[OF align_repl.hyps] by simp
    then show ?thesis by (intro exI[of _ "Suc n"]) simp
  next
    case c
    then obtain m where m: "m \<le> Suc n" "align m x y'" using align_repl.IH by blast
    have "align (Suc m) (a # x) y" using align.align_repl[OF m(2)] c(1) by simp
    then show ?thesis using m(1) by (intro exI[of _ "Suc m"]) simp
  qed
next
  case (align_ins n x z b)
  have base: "align (Suc n) x (b # z)" by (rule align.align_ins) (rule align_ins.hyps)
  from edit1_Cons_cases[OF align_ins.prems]
  consider (i) c where "y = c # b # z" | (d) "y = z" | (s) c where "y = c # z"
    | (c) y' where "y = b # y'" "edit1 z y'" by blast
  then show ?case
  proof cases
    case i
    then have "align (Suc (Suc n)) x y" using align.align_ins[OF base] by simp
    then show ?thesis by (intro exI[of _ "Suc (Suc n)"]) simp
  next
    case d
    then have "align n x y" using align_ins.hyps by simp
    then show ?thesis by (intro exI[of _ n]) simp
  next
    case s
    then have "align (Suc n) x y" using align.align_ins[OF align_ins.hyps] by simp
    then show ?thesis by (intro exI[of _ "Suc n"]) simp
  next
    case c
    then obtain m where m: "m \<le> Suc n" "align m x y'" using align_ins.IH by blast
    have "align (Suc m) x y" using align.align_ins[OF m(2)] c(1) by simp
    then show ?thesis using m(1) by (intro exI[of _ "Suc m"]) simp
  qed
next
  case (align_del n x z a)
  then obtain m where m: "m \<le> Suc n" "align m x y" by blast
  have "align (Suc m) (a # x) y" by (rule align.align_del) (rule m(2))
  then show ?case using m(1) by (intro exI[of _ "Suc m"]) simp
qed

lemma relpow_align: "(edit1 ^^ n) x y \<Longrightarrow> \<exists>m \<le> n. align m x y"
proof (induction n arbitrary: y)
  case 0
  then show ?case using align_refl by auto
next
  case (Suc n)
  then obtain z where "(edit1 ^^ n) x z" "edit1 z y" by auto
  then obtain m where m: "m \<le> n" "align m x z" using Suc.IH by blast
  from align_edit1[OF m(2) \<open>edit1 z y\<close>] obtain m' where "m' \<le> Suc m" "align m' x y" by blast
  then show ?case using m(1) by (meson Suc_le_mono le_trans)
qed

lemma lev_rec_lower: "(edit1 ^^ n) x y \<Longrightarrow> lev_rec x y \<le> n"
  using relpow_align align_lower by (metis le_trans)

lemma relpow_Cons: "(edit1 ^^ n) x y \<Longrightarrow> (edit1 ^^ n) (a # x) (a # y)"
proof (induction n arbitrary: y)
  case 0 then show ?case by simp
next
  case (Suc n)
  then obtain z where "(edit1 ^^ n) x z" "edit1 z y" by auto
  then show ?case using Suc.IH edit1_Cons by (metis relpowp_Suc_I)
qed

lemma relpow_ins: "(edit1 ^^ length ys) [] ys"
proof (induction ys rule: rev_induct)
  case Nil then show ?case by simp
next
  case (snoc y ys)
  have "edit1 ys (ys @ [y])" unfolding edit1_def by (metis append_Nil2)
  then show ?case using snoc by (auto intro: relpowp_Suc_I)
qed

lemma relpow_del: "(edit1 ^^ length xs) xs []"
proof (induction xs)
  case Nil then show ?case by simp
next
  case (Cons x xs)
  have "(edit1 ^^ Suc (length xs)) (x # xs) []"
    by (rule relpowp_Suc_I2[where y = xs]) (rule edit1_del_head, rule Cons)
  then show ?case by simp
qed

lemma lev_rec_upper: "(edit1 ^^ lev_rec x y) x y"
proof (induction x y rule: lev_rec.induct)
  case (1 ys)
  then show ?case using relpow_ins by simp
next
  case (2 x xs)
  then show ?case using relpow_del[of "x # xs"] by simp
next
  case (3 x xs y ys)
  show ?case
  proof (cases "y = x")
    case True
    then show ?thesis using 3 relpow_Cons by simp
  next
    case False
    have "edit1 (x # xs) (y # xs)" using False by (simp add: edit1_sub_head)
    moreover have "(edit1 ^^ lev_rec xs ys) (y # xs) (y # ys)"
      by (rule relpow_Cons) (rule 3(2)[OF False])
    ultimately have a: "(edit1 ^^ Suc (lev_rec xs ys)) (x # xs) (y # ys)"
      by (rule relpowp_Suc_I2)
    have b: "(edit1 ^^ Suc (lev_rec xs (y # ys))) (x # xs) (y # ys)"
      by (rule relpowp_Suc_I2[where y = xs]) (rule edit1_del_head, rule 3(3)[OF False])
    have c: "(edit1 ^^ Suc (lev_rec (x # xs) ys)) (x # xs) (y # ys)"
      by (rule relpowp_Suc_I[where y = ys]) (rule 3(4)[OF False], rule edit1_ins_head)
    show ?thesis using False a b c by (auto simp: min_def)
  qed
qed

lemma lev_rec_min_edits: "lev_rec x y = min_edits x y"
  unfolding min_edits_def
  by (rule Least_equality[symmetric]) (auto intro: lev_rec_upper lev_rec_lower)

lemma D_col0: "i \<le> length b \<Longrightarrow> D a b i 0 = i"
  by (simp add: D_def)

lemma D_row0: "j \<le> length a \<Longrightarrow> D a b 0 j = j"
  by (simp add: D_def lev_rec_Nil2)

lemma D_step:
  assumes "k < length a" "i < length b"
  shows "D a b (Suc i) (Suc k) =
     (if b ! i = a ! k then D a b i k
      else min (D a b i k + 1) (min (D a b (Suc i) k + 1) (D a b i (Suc k) + 1)))"
  using assms by (simp add: D_def take_Suc_conv_app_nth)

lemma matrix0_eq:
  "fold (\<lambda>i matrix. js_assign matrix i [i]) [0..<k] [] = map (\<lambda>i. [i]) [0..<k]"
  by (induction k) (simp_all add: js_assign_def)

lemma matrix1_eq:
  assumes "matrix \<noteq> []" "matrix ! 0 = [0]"
  shows "fold (\<lambda>j matrix. set_cell matrix 0 j j) [0..<Suc k] matrix = matrix[0 := [0..<Suc k]]"
proof (induction k)
  case 0
  show ?case using assms by (simp add: set_cell_def js_assign_def)
next
  case (Suc k)
  have "fold (\<lambda>j matrix. set_cell matrix 0 j j) [0..<Suc (Suc k)] matrix
        = set_cell (fold (\<lambda>j matrix. set_cell matrix 0 j j) [0..<Suc k] matrix) 0 (Suc k) (Suc k)"
    by simp
  also have "\<dots> = set_cell (matrix[0 := [0..<Suc k]]) 0 (Suc k) (Suc k)"
    by (simp only: Suc.IH)
  also have "\<dots> = matrix[0 := [0..<Suc (Suc k)]]"
    using assms(1) by (simp add: set_cell_def js_assign_def)
  finally show ?case .
qed

lemma inner_loop:
  assumes i: "i < length b" and len: "Suc i < length matrix"
    and prev: "matrix ! i = map (D a b i) [0..<Suc (length a)]"
    and cur: "matrix ! Suc i = [Suc i]"
    and k: "k \<le> length a"
  shows "fold (\<lambda>j matrix. set_cell matrix (Suc i) j (cell a b matrix (Suc i) j)) [1..<Suc k] matrix
         = matrix[Suc i := map (D a b (Suc i)) [0..<Suc k]]"
  using k
proof (induction k)
  case 0
  have "map (D a b (Suc i)) [0..<Suc 0] = [Suc i]" using i by (simp add: D_col0)
  moreover have "matrix[Suc i := [Suc i]] = matrix"
    using cur by (metis list_update_id)
  ultimately show ?case by simp
next
  case (Suc k)
  let ?m = "matrix[Suc i := map (D a b (Suc i)) [0..<Suc k]]"
  have k: "k < length a" using Suc.prems by simp
  have c1: "?m ! i ! k = D a b i k" using prev k by (simp add: nth_append)
  have c2: "?m ! Suc i ! k = D a b (Suc i) k" using len by (simp add: nth_append)
  have c3: "?m ! i ! Suc k = D a b i (Suc k)"
  proof -
    have "?m ! i = map (D a b i) [0..<Suc (length a)]" using prev by simp
    moreover have "Suc k < length [0..<Suc (length a)]" using k by simp
    ultimately show ?thesis by (metis nth_map nth_upt add_0 length_upt diff_zero)
  qed
  have v: "cell a b ?m (Suc i) (Suc k) = D a b (Suc i) (Suc k)"
    unfolding cell_def using c1 c2 c3 D_step[OF k i] by simp
  have "fold (\<lambda>j matrix. set_cell matrix (Suc i) j (cell a b matrix (Suc i) j)) [1..<Suc (Suc k)] matrix
        = set_cell ?m (Suc i) (Suc k) (cell a b ?m (Suc i) (Suc k))"
    using Suc.IH k by simp
  also have "\<dots> = ?m[Suc i := js_assign (?m ! Suc i) (Suc k) (D a b (Suc i) (Suc k))]"
    by (simp only: set_cell_def v)
  also have "?m ! Suc i = map (D a b (Suc i)) [0..<Suc k]"
    using len by simp
  also have "js_assign (map (D a b (Suc i)) [0..<Suc k]) (Suc k) (D a b (Suc i) (Suc k))
             = map (D a b (Suc i)) [0..<Suc (Suc k)]"
    by (simp add: js_assign_def)
  also have "?m[Suc i := map (D a b (Suc i)) [0..<Suc (Suc k)]]
             = matrix[Suc i := map (D a b (Suc i)) [0..<Suc (Suc k)]]"
    by simp
  finally show ?case .
qed

lemma outer_loop:
  assumes "filled a b 0 matrix" "k \<le> length b"
  shows "filled a b k
           (fold (\<lambda>i. fold (\<lambda>j matrix. set_cell matrix i j (cell a b matrix i j)) [1..<Suc (length a)])
                 [1..<Suc k] matrix)"
  using assms(2)
proof (induction k)
  case 0
  then show ?case using assms(1) by simp
next
  case (Suc k)
  let ?f = "\<lambda>i. fold (\<lambda>j matrix. set_cell matrix i j (cell a b matrix i j)) [1..<Suc (length a)]"
  let ?m = "fold ?f [1..<Suc k] matrix"
  have inv: "filled a b k ?m" using Suc by simp
  have k: "k < length b" using Suc.prems by simp
  have len: "Suc k < length ?m" using inv k by (simp add: filled_def)
  have prev: "?m ! k = map (D a b k) [0..<Suc (length a)]" using inv by (simp add: filled_def)
  have cur: "?m ! Suc k = [Suc k]" using inv Suc.prems by (simp add: filled_def)
  have "fold ?f [1..<Suc (Suc k)] matrix = ?f (Suc k) ?m" by simp
  also have "\<dots> = ?m[Suc k := map (D a b (Suc k)) [0..<Suc (length a)]]"
    by (rule inner_loop[OF k len prev cur order_refl])
  finally have eq: "fold ?f [1..<Suc (Suc k)] matrix = ?m[Suc k := map (D a b (Suc k)) [0..<Suc (length a)]]" .
  show ?case unfolding eq using inv len
    by (auto simp: filled_def nth_list_update le_Suc_eq)
qed

lemma filled_init:
  "filled a b 0 ((map (\<lambda>i. [i]) [0..<Suc (length b)])[0 := [0..<Suc (length a)]])"
proof -
  have "map (D a b 0) [0..<Suc (length a)] = [0..<Suc (length a)]"
    by (rule map_idI) (auto simp: D_row0)
  moreover have "\<And>i. 0 < i \<Longrightarrow> i \<le> length b \<Longrightarrow>
      (map (\<lambda>i. [i]) [0..<Suc (length b)])[0 := [0..<Suc (length a)]] ! i = [i]"
    by (simp add: nth_append less_Suc_eq_le del: upt_Suc)
  ultimately show ?thesis
    unfolding filled_def by (simp del: upt_Suc)
qed

lemma getLevenshteinDistance_lev_rec:
  "getLevenshteinDistance a b = lev_rec (rev a) (rev b)"
proof (cases "length a = 0 \<or> length b = 0")
  case True
  then show ?thesis by (auto simp: getLevenshteinDistance_def lev_rec_Nil2)
next
  case False
  let ?m0 = "fold (\<lambda>i matrix. js_assign matrix i [i]) [0..<Suc (length b)] []"
  let ?m1 = "fold (\<lambda>j matrix. set_cell matrix 0 j j) [0..<Suc (length a)] ?m0"
  let ?m2 = "fold (\<lambda>i. fold (\<lambda>j matrix. set_cell matrix i j (cell a b matrix i j)) [1..<Suc (length a)])
                  [1..<Suc (length b)] ?m1"
  have m0: "?m0 = map (\<lambda>i. [i]) [0..<Suc (length b)]" by (rule matrix0_eq)
  have m1: "?m1 = (map (\<lambda>i. [i]) [0..<Suc (length b)])[0 := [0..<Suc (length a)]]"
  proof -
    have "map (\<lambda>i. [i]) [0..<Suc (length b)] ! 0 = [0::nat]"
      by (simp only: nth_map_upt) simp
    then show ?thesis unfolding m0 by (intro matrix1_eq) simp_all
  qed
  have "filled a b (length b) ?m2"
    unfolding m1 by (rule outer_loop[OF filled_init order_refl])
  then have "?m2 ! length b ! length a = D a b (length b) (length a)"
    by (simp add: filled_def nth_append del: upt_Suc)
  then show ?thesis using False
    by (simp add: getLevenshteinDistance_def Let_def D_def del: upt_Suc fold_simps)
qed

lemma edit1_sym: "edit1 x y \<Longrightarrow> edit1 y x"
  unfolding edit1_def by (elim disjE exE conjE) (blast, blast, metis)

lemma edit1_rev: "edit1 x y \<Longrightarrow> edit1 (rev x) (rev y)"
proof -
  assume "edit1 x y"
  then consider (i) u v c where "x = u @ v" "y = u @ c # v"
    | (d) u v c where "x = u @ c # v" "y = u @ v"
    | (s) u v c e where "c \<noteq> e" "x = u @ c # v" "y = u @ e # v"
    unfolding edit1_def by blast
  then show ?thesis
  proof cases
    case i
    then have "rev x = rev v @ rev u" "rev y = (rev v @ [c]) @ rev u" by simp_all
    then have "rev y = rev v @ c # rev u" by simp
    with \<open>rev x = rev v @ rev u\<close> show ?thesis unfolding edit1_def by blast
  next
    case d
    then have "rev x = rev v @ c # rev u" "rev y = rev v @ rev u" by simp_all
    then show ?thesis unfolding edit1_def by blast
  next
    case s
    then have "rev x = rev v @ c # rev u" "rev y = rev v @ e # rev u" by simp_all
    with s(1) show ?thesis unfolding edit1_def by blast
  qed
qed

lemma relpow_sym: "(edit1 ^^ n) x y \<Longrightarrow> (edit1 ^^ n) y x"
proof (induction n arbitrary: y)
  case 0
  then show ?case by simp
next
  case (Suc n)
  then obtain z where z: "(edit1 ^^ n) x z" "edit1 z y" by auto
  have "edit1 y z" by (rule edit1_sym) (rule z(2))
  moreover have "(edit1 ^^ n) z x" by (rule Suc.IH) (rule z(1))
  ultimately show ?case by (rule relpowp_Suc_I2)
qed

lemma relpow_rev: "(edit1 ^^ n) x y \<Longrightarrow> (edit1 ^^ n) (rev x) (rev y)"
proof (induction n arbitrary: y)
  case 0
  then show ?case by simp
next
  case (Suc n)
  then obtain z where z: "(edit1 ^^ n) x z" "edit1 z y" by auto
  have "(edit1 ^^ n) (rev x) (rev z)" by (rule Suc.IH) (rule z(1))
  moreover have "edit1 (rev z) (rev y)" by (rule edit1_rev) (rule z(2))
  ultimately show ?case by (rule relpowp_Suc_I)
qed

lemma min_edits_sym: "min_edits a b = min_edits b a"
proof -
  have "(edit1 ^^ n) a b \<longleftrightarrow> (edit1 ^^ n) b a" for n
    using relpow_sym by blast
  then show ?thesis by (simp add: min_edits_def)
qed

lemma min_edits_rev: "min_edits (rev a) (rev b) = min_edits a b"
proof -
  have "(edit1 ^^ n) (rev a) (rev b) \<longleftrightarrow> (edit1 ^^ n) a b" for n
    using relpow_rev[of n a b] relpow_rev[of n "rev a" "rev b"] by auto
  then show ?thesis by (simp add: min_edits_def)
qed

lemma getLevenshteinDistance_eq: "getLevenshteinDistance a b = min_edits a b"
  by (simp add: getLevenshteinDistance_lev_rec lev_rec_min_edits min_edits_rev)

lemma getLevenshteinDistance_reaches: "(edit1 ^^ getLevenshteinDistance a b) a b"
proof -
  have "(edit1 ^^ lev_rec (rev a) (rev b)) (rev (rev a)) (rev (rev b))"
    by (rule relpow_rev) (rule lev_rec_upper)
  then show ?thesis by (simp add: getLevenshteinDistance_lev_rec)
qed

text \<open>
  Claim C2. For all strings \<open>a\<close> and \<open>b\<close>, \<open>getLevenshteinDistance a b\<close> is the minimum
  number of single-character insertions, deletions or substitutions that transform \<open>a\<close>
  into \<open>b\<close>: that many edits lead from \<open>a\<close> to \<open>b\<close>, and it is the least such number. The
  base cases of the table are \<open>i\<close> for an empty \<open>a\<close> and \<open>j\<close> for an empty \<open>b\<close>, and the
  distance is symmetric.
\<close>

theorem getLevenshteinDistance_minimum_edits:
  "getLevenshteinDistance a b = min_edits a b
   \<and> (edit1 ^^ getLevenshteinDistance a b) a b
   \<and> getLevenshteinDistance [] b = length b
   \<and> getLevenshteinDistance a [] = length a
   \<and> getLevenshteinDistance a b = getLevenshteinDistance b a"
proof -
  have "getLevenshteinDistance a b = getLevenshteinDistance b a"
    using min_edits_sym[of a b] by (simp add: getLevenshteinDistance_eq)
  moreover have "getLevenshteinDistance [] b = length b" "getLevenshteinDistance a [] = length a"
    by (simp_all add: getLevenshteinDistance_def)
  ultimately show ?thesis
    using getLevenshteinDistance_eq[of a b] getLevenshteinDistance_reaches[of a b] by simp
qed

section \<open>The search in the lookahead window and the cursor\<close>

text \<open>
  The inner loop returns the leftmost index of the window whose word is an exact or a
  fuzzy match, and nothing when the window has none. The equation of \<open>searchWindow\<close> is
  unfolded by hand only, since it applies to its own right-hand side.
\<close>

declare searchWindow.simps [simp del]

lemma searchWindow_Some:
  "searchWindow t S c i = Some k \<Longrightarrow>
     i \<le> k \<and> k < min (c + SEARCH_WINDOW) (length S) \<and> candidateMatches t (S ! k) \<and>
     (\<forall>j. i \<le> j \<and> j < k \<longrightarrow> \<not> candidateMatches t (S ! j))"
proof (induction t S c i rule: searchWindow.induct)
  case (1 t S c i)
  show ?case
  proof (cases "i < min (c + SEARCH_WINDOW) (length S) \<and> \<not> candidateMatches t (S ! i)")
    case True
    then have "searchWindow t S c (i + 1) = Some k"
      using "1.prems" by (subst (asm) searchWindow.simps) (simp add: candidateMatches_def)
    then have IH: "i + 1 \<le> k \<and> k < min (c + SEARCH_WINDOW) (length S) \<and> candidateMatches t (S ! k) \<and>
        (\<forall>j. i + 1 \<le> j \<and> j < k \<longrightarrow> \<not> candidateMatches t (S ! j))"
      using "1.IH" True by (simp add: candidateMatches_def)
    have "\<not> candidateMatches t (S ! j)" if "i \<le> j" "j < k" for j
      using that IH True by (cases "j = i") auto
    then show ?thesis using IH by auto
  next
    case False
    then have "k = i \<and> i < min (c + SEARCH_WINDOW) (length S) \<and> candidateMatches t (S ! i)"
      using "1.prems" by (subst (asm) searchWindow.simps) (auto simp: candidateMatches_def split: if_splits)
    then show ?thesis by auto
  qed
qed

lemma searchWindow_None:
  "searchWindow t S c i = None \<Longrightarrow> i \<le> j \<Longrightarrow> j < min (c + SEARCH_WINDOW) (length S) \<Longrightarrow>
     \<not> candidateMatches t (S ! j)"
proof (induction t S c i rule: searchWindow.induct)
  case (1 t S c i)
  have iw: "i < min (c + SEARCH_WINDOW) (length S)" using "1.prems" by simp
  have here: "\<not> candidateMatches t (S ! i)" and nxt: "searchWindow t S c (i + 1) = None"
    using "1.prems"(1) iw by (subst (asm) searchWindow.simps; simp add: candidateMatches_def split: if_splits)+
  show ?case
  proof (cases "j = i")
    case True then show ?thesis using here by simp
  next
    case False
    then have "i + 1 \<le> j" using "1.prems" by simp
    then show ?thesis using "1.IH" iw here nxt "1.prems"(3) by (simp add: candidateMatches_def)
  qed
qed

lemma searchWindow_SomeI:
  assumes "c \<le> k" "k < min (c + SEARCH_WINDOW) (length S)" "candidateMatches t (S ! k)"
    and "\<forall>j. c \<le> j \<and> j < k \<longrightarrow> \<not> candidateMatches t (S ! j)"
  shows "searchWindow t S c c = Some k"
proof (cases "searchWindow t S c c")
  case None
  then show ?thesis using searchWindow_None[OF None assms(1,2)] assms(3) by simp
next
  case (Some k')
  from searchWindow_Some[OF Some] have k': "c \<le> k'" "k' < min (c + SEARCH_WINDOW) (length S)"
    "candidateMatches t (S ! k')" "\<forall>j. c \<le> j \<and> j < k' \<longrightarrow> \<not> candidateMatches t (S ! j)"
    by auto
  have "k' = k"
  proof (rule ccontr)
    assume "k' \<noteq> k"
    then consider "k' < k" | "k < k'" by linarith
    then show False
    proof cases
      case 1 then show False using assms(4) k'(1,3) by blast
    next
      case 2 then show False using k'(4) assms(1,3) by blast
    qed
  qed
  then show ?thesis using Some by simp
qed

lemma searchWindow_NoneI:
  assumes "\<forall>j. c \<le> j \<and> j < min (c + SEARCH_WINDOW) (length S) \<longrightarrow> \<not> candidateMatches t (S ! j)"
  shows "searchWindow t S c c = None"
proof (cases "searchWindow t S c c")
  case None then show ?thesis .
next
  case (Some k)
  from searchWindow_Some[OF Some] show ?thesis using assms by blast
qed

lemma stateAt_0: "stateAt T S 0 = \<lparr>matches = 0, spokenIdx = 0\<rparr>"
  by (simp add: stateAt_def)

lemma stateAt_Suc:
  "k < length T \<Longrightarrow> stateAt T S (Suc k) = matchWord S (T ! k) (stateAt T S k)"
  by (simp add: stateAt_def take_Suc_conv_app_nth)

lemma stateAt_length: "stateAt T S (length T) = alignLoop T S"
  by (simp add: stateAt_def alignLoop_def)

lemma stateAt_beyond: "length T \<le> k \<Longrightarrow> stateAt T S k = alignLoop T S"
  by (simp add: stateAt_def alignLoop_def)

lemma stateAt_step:
  assumes "k < length T"
  shows "case matchedAt T S k of
           None \<Rightarrow> stateAt T S (Suc k) = stateAt T S k
         | Some i \<Rightarrow> spokenIdx (stateAt T S k) \<le> i \<and> i < length S \<and>
                     i < spokenIdx (stateAt T S k) + SEARCH_WINDOW \<and>
                     stateAt T S (Suc k) = \<lparr>matches = matches (stateAt T S k) + 1, spokenIdx = i + 1\<rparr>"
proof (cases "matchedAt T S k")
  case None
  then show ?thesis using assms by (simp add: stateAt_Suc matchWord_def matchedAt_def)
next
  case (Some i)
  then have "searchWindow (T ! k) S (spokenIdx (stateAt T S k)) (spokenIdx (stateAt T S k)) = Some i"
    by (simp add: matchedAt_def)
  from searchWindow_Some[OF this] Some show ?thesis
    using assms by (simp add: stateAt_Suc matchWord_def matchedAt_def)
qed

lemma cursor_step: "spokenIdx (stateAt T S k) \<le> spokenIdx (stateAt T S (Suc k))"
proof (cases "k < length T")
  case True
  from stateAt_step[OF True, of S] show ?thesis by (cases "matchedAt T S k") auto
next
  case False
  then show ?thesis by (simp add: stateAt_beyond)
qed

lemma cursor_mono: "j \<le> k \<Longrightarrow> spokenIdx (stateAt T S j) \<le> spokenIdx (stateAt T S k)"
  by (rule lift_Suc_mono_le[of "\<lambda>k. spokenIdx (stateAt T S k)"]) (rule cursor_step)

lemma matches_step:
  "matches (stateAt T S k) \<le> matches (stateAt T S (Suc k)) \<and>
   matches (stateAt T S (Suc k)) \<le> matches (stateAt T S k) + 1"
proof (cases "k < length T")
  case True
  from stateAt_step[OF True, of S] show ?thesis by (cases "matchedAt T S k") auto
next
  case False
  then show ?thesis by (simp add: stateAt_beyond)
qed

lemma matches_le: "matches (stateAt T S k) \<le> k"
proof (induction k)
  case 0 show ?case by (simp add: stateAt_0)
next
  case (Suc k) then show ?case using matches_step[of T S k] by linarith
qed

lemma matches_le_length: "matches (alignLoop T S) \<le> length T"
  using matches_le[of T S "length T"] by (simp add: stateAt_length)

lemma cursor_le_length: "spokenIdx (stateAt T S k) \<le> length S"
proof (induction k)
  case 0
  show ?case by (simp add: stateAt_0)
next
  case (Suc k)
  show ?case
  proof (cases "k < length T")
    case True
    from stateAt_step[OF True, of S] Suc show ?thesis
      by (cases "matchedAt T S k") auto
  next
    case False
    then have "stateAt T S (Suc k) = stateAt T S k" by (simp add: stateAt_beyond)
    then show ?thesis using Suc by simp
  qed
qed

lemma matched_increasing:
  assumes "j < k" "k < length T" "matchedAt T S j = Some i" "matchedAt T S k = Some i'"
  shows "i < i'"
proof -
  have "spokenIdx (stateAt T S (Suc j)) = i + 1"
    using stateAt_step[of j T S] assms by simp
  moreover have "spokenIdx (stateAt T S (Suc j)) \<le> spokenIdx (stateAt T S k)"
    using assms(1) by (intro cursor_mono) simp
  moreover have "spokenIdx (stateAt T S k) \<le> i'"
    using stateAt_step[of k T S] assms by simp
  ultimately show ?thesis by linarith
qed

section \<open>Rounding to a double\<close>

text \<open>
  Rounding a non-negative number to a double gives a non-negative number, does not
  exceed an integer bound of the number (in the binades up to 52), and has a relative
  error of at most \<open>2\<^sup>-\<^sup>5\<^sup>3\<close>. The percentage of \<open>m \<le> n\<close> matches therefore is an integer
  between 0 and 100, and one of the integers nearest to \<open>100 \<sqdot> m / n\<close>.
\<close>

lemma binade_lower:
  assumes "0 < x"
  shows "2 powi (binade x) \<le> x"
proof -
  obtain p q where pq: "quotient_of x = (p, q)" by (cases "quotient_of x")
  have q: "0 < q" using quotient_of_denom_pos[OF pq] .
  have x: "x = of_int p / of_int q" using quotient_of_div[OF pq] .
  have p: "0 < p" using assms q unfolding x by (simp add: zero_less_divide_iff)
  let ?d = "bitlen p - bitlen q"
  show ?thesis
  proof (cases "2 powi ?d \<le> x")
    case True
    then show ?thesis by (simp add: binade_def pq)
  next
    case False
    have bp: "1 \<le> bitlen p" using p bitlen_eq_zero_iff[of p] bitlen_nonneg[of p] by linarith
    have bq: "0 \<le> bitlen q" by (rule bitlen_nonneg)
    have "(2::int) ^ nat (bitlen p - 1) \<le> p" using bitlen_bounds[OF p] by simp
    then have "(of_int ((2::int) ^ nat (bitlen p - 1)) :: rat) \<le> of_int p"
      by (simp only: of_int_le_iff)
    then have lo: "(2::rat) powi (bitlen p - 1) \<le> of_int p"
      using bp by (simp add: power_int_def)
    have "q < (2::int) ^ nat (bitlen q)" using bitlen_bounds[OF q] by simp
    then have "(of_int q :: rat) < of_int ((2::int) ^ nat (bitlen q))"
      by (simp only: of_int_less_iff)
    then have hi: "(of_int q :: rat) \<le> 2 powi (bitlen q)"
      using bq by (simp add: power_int_def)
    have "(2::rat) powi (?d - 1) = 2 powi (bitlen p - 1) / 2 powi (bitlen q)"
      using power_int_diff[of "2::rat" "bitlen p - 1" "bitlen q"] by (simp add: algebra_simps)
    also have "\<dots> \<le> of_int p / 2 powi (bitlen q)"
      using lo by (simp add: divide_right_mono)
    also have "\<dots> \<le> of_int p / of_int q"
      using hi p q by (intro divide_left_mono) (auto intro!: mult_pos_pos)
    finally have "(2::rat) powi (?d - 1) \<le> x" unfolding x .
    then show ?thesis using False by (simp add: binade_def pq)
  qed
qed

lemma binade_le:
  assumes "0 < x" "x \<le> 2 powi k" "0 \<le> k"
  shows "binade x \<le> k"
proof -
  have "(2::rat) powi (binade x) \<le> 2 powi k" using binade_lower[OF assms(1)] assms(2) by simp
  then show ?thesis by (rule power_int_le_imp_le_exp[of "2::rat", rotated]) (simp_all add: assms(3))
qed

lemma round_half_even_le: "x \<le> of_int k \<Longrightarrow> round_half_even x \<le> k"
proof -
  assume a: "x \<le> of_int k"
  have f: "\<lfloor>x\<rfloor> \<le> k" using a by (simp add: floor_le_iff)
  show ?thesis
  proof (cases "x - of_int \<lfloor>x\<rfloor> < 1/2")
    case True
    then show ?thesis using f by (simp add: round_half_even_def Let_def)
  next
    case False
    have "\<lfloor>x\<rfloor> \<noteq> k"
    proof
      assume "\<lfloor>x\<rfloor> = k"
      then have "of_int k \<le> x" using of_int_floor_le[of x] by simp
      then have "x - of_int \<lfloor>x\<rfloor> = 0" using a \<open>\<lfloor>x\<rfloor> = k\<close> by simp
      then show False using False by simp
    qed
    then have "\<lfloor>x\<rfloor> + 1 \<le> k" using f by simp
    then show ?thesis using f by (simp add: round_half_even_def Let_def)
  qed
qed

lemma round_half_even_nonneg: "0 \<le> x \<Longrightarrow> 0 \<le> round_half_even x"
  by (auto simp: round_half_even_def Let_def intro: add_nonneg_nonneg)


lemma fl64_nonneg: "0 \<le> x \<Longrightarrow> 0 \<le> fl64 x"
  by (simp add: fl64_def Let_def round_half_even_nonneg)

lemma fl64_le_int:
  assumes "0 < x" "x \<le> of_int b" "binade x \<le> 52"
  shows "fl64 x \<le> of_int b"
proof -
  let ?u = "(2::rat) powi (binade x - 52)"
  let ?k = "b * 2 ^ nat (52 - binade x)"
  have u: "0 < ?u" by simp
  have inv: "(of_int (2 ^ nat (52 - binade x)) :: rat) * ?u = 1"
  proof -
    have "(of_int (2 ^ nat (52 - binade x)) :: rat) = 2 powi (52 - binade x)"
      using assms(3) by (simp add: power_int_def)
    then have "(of_int (2 ^ nat (52 - binade x)) :: rat) * ?u = 2 powi (52 - binade x) * 2 powi (binade x - 52)"
      by simp
    also have "\<dots> = 2 powi ((52 - binade x) + (binade x - 52))"
      by (subst power_int_add) simp_all
    finally show ?thesis by simp
  qed
  have k: "(of_int ?k :: rat) * ?u = of_int b"
    using inv by (simp add: mult.assoc)
  have "x / ?u \<le> of_int b / ?u" using assms(2) u by (simp add: divide_right_mono)
  also have "of_int b / ?u = of_int ?k" using k u by (simp add: field_simps)
  finally have "round_half_even (x / ?u) \<le> ?k" by (rule round_half_even_le)
  then have "(of_int (round_half_even (x / ?u)) :: rat) \<le> of_int ?k" by (simp only: of_int_le_iff)
  then have "of_int (round_half_even (x / ?u)) * ?u \<le> of_int ?k * ?u"
    using u by (intro mult_right_mono) simp_all
  also have "\<dots> = of_int b" by (rule k)
  finally have "of_int (round_half_even (x / ?u)) * ?u \<le> of_int b" .
  moreover have "fl64 x = of_int (round_half_even (x / ?u)) * ?u"
    using assms(1) by (simp add: fl64_def Let_def)
  ultimately show ?thesis by simp
qed

lemma fl64_le_1:
  assumes "0 \<le> x" "x \<le> 1"
  shows "fl64 x \<le> 1"
proof (cases "x = 0")
  case True then show ?thesis by (simp add: fl64_def)
next
  case False
  then have x: "0 < x" using assms by simp
  have "binade x \<le> 0" by (rule binade_le) (simp_all add: x assms(2))
  then show ?thesis using fl64_le_int[of x 1] x assms(2) by simp
qed

lemma fl64_le_100:
  assumes "0 \<le> x" "x \<le> 100"
  shows "fl64 x \<le> 100"
proof (cases "x = 0")
  case True then show ?thesis by (simp add: fl64_def)
next
  case False
  then have x: "0 < x" using assms by simp
  have "x \<le> 2 powi 7" using assms(2) by simp
  then have "binade x \<le> 7" by (rule binade_le[OF x]) simp
  then show ?thesis using fl64_le_int[of x 100] x assms(2) by simp
qed

lemma percentage_range:
  assumes "m \<le> n" "0 < n"
  shows "\<exists>p::int. Math_round (js_times (js_div m n) 100) = Num (of_int p) \<and> 0 \<le> p \<and> p \<le> 100
           \<and> p = \<lfloor>fl64 (fl64 (of_nat m / of_nat n) * 100) + 1/2\<rfloor>"
proof -
  let ?x = "of_nat m / of_nat n :: rat"
  have x: "0 \<le> ?x" "?x \<le> 1" using assms by simp_all
  have q1: "0 \<le> fl64 ?x" "fl64 ?x \<le> 1" using x by (simp_all add: fl64_nonneg fl64_le_1)
  have q2: "0 \<le> fl64 (fl64 ?x * 100)" "fl64 (fl64 ?x * 100) \<le> 100"
    using q1 by (simp_all add: fl64_nonneg fl64_le_100)
  let ?p = "\<lfloor>fl64 (fl64 ?x * 100) + 1/2\<rfloor>"
  have "0 \<le> ?p" using q2(1) by simp
  moreover have "?p \<le> 100" using q2(2) by (simp add: floor_le_iff)
  moreover have "Math_round (js_times (js_div m n) 100) = Num (of_int ?p)"
    using assms by (simp add: Math_round_def js_times_def js_div_def)
  ultimately show ?thesis by blast
qed



text \<open>
  Rounding in double precision can differ from rounding the exact quotient where the
  exact percentage is a tie: 23 of 40 is 57.5 exactly, the double product is just below
  it, and the score is 57.
\<close>

lemma double_rounding_example:
  "Math_round (js_times (js_div 23 40) 100) = Num 57 \<and> \<lfloor>100 * 23 / 40 + 1/2 :: rat\<rfloor> = 58"
  by code_simp

section \<open>The matching rule and the cursor walk\<close>

lemma lev_eval: "getLevenshteinDistance a b = lev_rec (rev a) (rev b)"
  by (rule getLevenshteinDistance_lev_rec)




lemmas eval_simps = alignLoop_def matchWord_def searchWindow.simps SEARCH_WINDOW_def
  allowedEdits_def lev_eval candidateMatches_def stateAt_def matchedAt_def

text \<open>
  Claim C1, as amended. The aligner scans the window \<open>[cursor, min (cursor + 6) m)\<close> once,
  from left to right, and matches the target word \<open>t\<close> to the leftmost candidate that
  equals \<open>t\<close> or lies within the allowed-edit threshold (2 when \<open>t\<close> has more than 5
  characters, else 1); the cursor advances just past that candidate and the match is
  counted. No candidate is matched exactly when no word of the window equals \<open>t\<close> or lies
  within the threshold. So an exact candidate is matched only when no candidate to its
  left in the window is within the threshold, and a fuzzy candidate is matched whenever
  no candidate to its left matches, also when a word further right equals \<open>t\<close>.

  The claim as stated (an exact match anywhere in the window wins over a fuzzy match)
  fails: for the target word \<open>cat\<close> and the spoken words \<open>bat, cat\<close> the window holds
  the exact candidate at index 1, and the aligner matches index 0 and leaves the cursor
  at 1 (the counterexample below).
\<close>

theorem searchWindow_leftmost_candidate:
  "(searchWindow t S c c = Some k \<longleftrightarrow>
      c \<le> k \<and> k < min (c + 6) (length S) \<and> candidateMatches t (S ! k) \<and>
      (\<forall>j. c \<le> j \<and> j < k \<longrightarrow> \<not> candidateMatches t (S ! j)))
   \<and> (searchWindow t S c c = None \<longleftrightarrow>
      (\<forall>j. c \<le> j \<and> j < min (c + 6) (length S) \<longrightarrow> \<not> candidateMatches t (S ! j)))
   \<and> (candidateMatches t s \<longleftrightarrow>
      s = t \<or> getLevenshteinDistance t s \<le> (if 5 < length t then 2 else 1))
   \<and> matchWord S t st =
      (case searchWindow t S (spokenIdx st) (spokenIdx st) of
         Some i \<Rightarrow> \<lparr>matches = matches st + 1, spokenIdx = i + 1\<rparr>
       | None \<Rightarrow> st)"
proof -
  have 1: "searchWindow t S c c = Some k \<longleftrightarrow>
      c \<le> k \<and> k < min (c + 6) (length S) \<and> candidateMatches t (S ! k) \<and>
      (\<forall>j. c \<le> j \<and> j < k \<longrightarrow> \<not> candidateMatches t (S ! j))"
    using searchWindow_Some[of t S c c k] searchWindow_SomeI[of c k S t]
    unfolding SEARCH_WINDOW_def by blast
  have 2: "searchWindow t S c c = None \<longleftrightarrow>
      (\<forall>j. c \<le> j \<and> j < min (c + 6) (length S) \<longrightarrow> \<not> candidateMatches t (S ! j))"
    using searchWindow_None[of t S c c] searchWindow_NoneI[of c S t]
    unfolding SEARCH_WINDOW_def by blast
  have 3: "candidateMatches t s \<longleftrightarrow>
      s = t \<or> getLevenshteinDistance t s \<le> (if 5 < length t then 2 else 1)"
    by (simp add: candidateMatches_def allowedEdits_def)
  show ?thesis using 1 2 3 by (simp add: matchWord_def)
qed

theorem searchWindow_leftmost_candidate_witness:
  "searchWindow ''cat'' [''dog'', ''cat''] 0 0 = Some 1
   \<and> matchWord [''dog'', ''cat''] ''cat'' \<lparr>matches = 0, spokenIdx = 0\<rparr> = \<lparr>matches = 1, spokenIdx = 2\<rparr>"
proof -
  have a: "\<not> candidateMatches ''cat'' ''dog''" "candidateMatches ''cat'' ''cat''"
    by (simp_all add: candidateMatches_def allowedEdits_def lev_eval)
  have "(0::nat) \<le> 1 \<and> 1 < min (0 + 6) (length [''dog'', ''cat'']) \<and>
        candidateMatches ''cat'' ([''dog'', ''cat''] ! 1) \<and>
        (\<forall>j. 0 \<le> j \<and> j < 1 \<longrightarrow> \<not> candidateMatches ''cat'' ([''dog'', ''cat''] ! j))"
    using a by simp
  then have s: "searchWindow ''cat'' [''dog'', ''cat''] 0 0 = Some 1"
    using searchWindow_leftmost_candidate[of "''cat''" "[''dog'', ''cat'']" 0 1] by blast
  have "matchWord [''dog'', ''cat''] ''cat'' \<lparr>matches = 0, spokenIdx = 0\<rparr>
        = (case searchWindow ''cat'' [''dog'', ''cat''] (spokenIdx \<lparr>matches = 0, spokenIdx = 0\<rparr>)
                  (spokenIdx \<lparr>matches = 0, spokenIdx = 0\<rparr>) of
             Some i \<Rightarrow> \<lparr>matches = matches \<lparr>matches = 0, spokenIdx = 0\<rparr> + 1, spokenIdx = i + 1\<rparr>
           | None \<Rightarrow> \<lparr>matches = 0, spokenIdx = 0\<rparr>)"
    by (rule searchWindow_leftmost_candidate[of "''cat''" "[''dog'', ''cat'']" 0 1 "''cat''"
        "\<lparr>matches = 0, spokenIdx = 0\<rparr>", THEN conjunct2, THEN conjunct2, THEN conjunct2])
  then show ?thesis using s by simp
qed

theorem exact_priority_counterexample:
  "[''bat'', ''cat''] ! 1 = ''cat''
   \<and> 1 < min (0 + SEARCH_WINDOW) (length [''bat'', ''cat''])
   \<and> getLevenshteinDistance ''cat'' ''bat'' = 1
   \<and> searchWindow ''cat'' [''bat'', ''cat''] 0 0 = Some 0
   \<and> matchWord [''bat'', ''cat''] ''cat'' \<lparr>matches = 0, spokenIdx = 0\<rparr> = \<lparr>matches = 1, spokenIdx = 1\<rparr>"
  by (simp add: eval_simps)



text \<open>
  Claim C7. Throughout one pass over the target words the cursor \<open>spokenIdx\<close> never
  decreases. The search for a target word finds at most one index: on a miss the state
  is unchanged, on a match at index \<open>i\<close> (which is not below the cursor) the cursor
  becomes \<open>i + 1\<close> and one match is counted. The indices matched by successive target
  words increase strictly, so a spoken word below the cursor is never matched again.
  The cursor never exceeds the number of spoken words.
\<close>

theorem cursor_never_moves_back:
  "(\<forall>j k. j \<le> k \<longrightarrow> spokenIdx (stateAt T S j) \<le> spokenIdx (stateAt T S k))
   \<and> (\<forall>k. k < length T \<longrightarrow>
        (case matchedAt T S k of
           None \<Rightarrow> stateAt T S (Suc k) = stateAt T S k
         | Some i \<Rightarrow> spokenIdx (stateAt T S k) \<le> i \<and> i < length S \<and>
                     stateAt T S (Suc k) =
                       \<lparr>matches = matches (stateAt T S k) + 1, spokenIdx = i + 1\<rparr>))
   \<and> (\<forall>j k i i'. j < k \<and> k < length T \<and> matchedAt T S j = Some i \<and> matchedAt T S k = Some i'
        \<longrightarrow> i < i')
   \<and> (\<forall>k. spokenIdx (stateAt T S k) \<le> length S)
   \<and> stateAt T S 0 = \<lparr>matches = 0, spokenIdx = 0\<rparr>
   \<and> stateAt T S (length T) = alignLoop T S"
proof -
  have "case matchedAt T S k of
           None \<Rightarrow> stateAt T S (Suc k) = stateAt T S k
         | Some i \<Rightarrow> spokenIdx (stateAt T S k) \<le> i \<and> i < length S \<and>
                     stateAt T S (Suc k) =
                       \<lparr>matches = matches (stateAt T S k) + 1, spokenIdx = i + 1\<rparr>"
    if "k < length T" for k
    using stateAt_step[OF that, of S] by (cases "matchedAt T S k") simp_all
  then show ?thesis
    using cursor_mono[of _ _ T S] matched_increasing[of _ _ T S] stateAt_0[of T S]
      stateAt_length[of T S] cursor_le_length[of T S]
    by blast
qed

theorem cursor_never_moves_back_witness:
  "matchedAt [''one'', ''two'', ''three'', ''four''] [''one'', ''four''] 0 = Some 0
   \<and> matchedAt [''one'', ''two'', ''three'', ''four''] [''one'', ''four''] 3 = Some 1
   \<and> stateAt [''one'', ''two'', ''three'', ''four''] [''one'', ''four''] (Suc 0)
        = \<lparr>matches = 1, spokenIdx = 1\<rparr>
   \<and> spokenIdx (stateAt [''one'', ''two'', ''three'', ''four''] [''one'', ''four''] 1)
       \<le> spokenIdx (stateAt [''one'', ''two'', ''three'', ''four''] [''one'', ''four''] 3)"
proof -
  let ?T = "[''one'', ''two'', ''three'', ''four'']" and ?S = "[''one'', ''four'']"
  note t = cursor_never_moves_back[of ?T ?S]
  have m: "matchedAt ?T ?S 0 = Some 0" by (simp add: eval_simps)
  have "\<forall>k. k < length ?T \<longrightarrow>
        (case matchedAt ?T ?S k of
           None \<Rightarrow> stateAt ?T ?S (Suc k) = stateAt ?T ?S k
         | Some i \<Rightarrow> spokenIdx (stateAt ?T ?S k) \<le> i \<and> i < length ?S \<and>
                     stateAt ?T ?S (Suc k) =
                       \<lparr>matches = matches (stateAt ?T ?S k) + 1, spokenIdx = i + 1\<rparr>)"
    by (rule t[THEN conjunct2, THEN conjunct1])
  moreover have "(0::nat) < length ?T" by simp
  ultimately have "case matchedAt ?T ?S 0 of
           None \<Rightarrow> stateAt ?T ?S (Suc 0) = stateAt ?T ?S 0
         | Some i \<Rightarrow> spokenIdx (stateAt ?T ?S 0) \<le> i \<and> i < length ?S \<and>
                     stateAt ?T ?S (Suc 0) =
                       \<lparr>matches = matches (stateAt ?T ?S 0) + 1, spokenIdx = i + 1\<rparr>"
    by blast
  then have "stateAt ?T ?S (Suc 0) = \<lparr>matches = matches (stateAt ?T ?S 0) + 1, spokenIdx = 0 + 1\<rparr>"
    by (simp add: m)
  moreover have "stateAt ?T ?S 0 = \<lparr>matches = 0, spokenIdx = 0\<rparr>"
    by (rule t[THEN conjunct2, THEN conjunct2, THEN conjunct2, THEN conjunct2, THEN conjunct1])
  ultimately have s: "stateAt ?T ?S (Suc 0) = \<lparr>matches = 1, spokenIdx = 1\<rparr>" by simp
  have "\<forall>j k. j \<le> k \<longrightarrow> spokenIdx (stateAt ?T ?S j) \<le> spokenIdx (stateAt ?T ?S k)"
    by (rule t[THEN conjunct1])
  then have c: "spokenIdx (stateAt ?T ?S 1) \<le> spokenIdx (stateAt ?T ?S 3)" by simp
  have m3: "matchedAt ?T ?S 3 = Some 1" by (simp add: eval_simps)
  have "\<forall>j k i i'. j < k \<and> k < length ?T \<and> matchedAt ?T ?S j = Some i \<and> matchedAt ?T ?S k = Some i'
        \<longrightarrow> i < i'"
    by (rule t[THEN conjunct2, THEN conjunct2, THEN conjunct1])
  moreover have "(0::nat) < 3 \<and> 3 < length ?T \<and> matchedAt ?T ?S 0 = Some 0 \<and> matchedAt ?T ?S 3 = Some 1"
    using m m3 by simp
  ultimately have "(0::nat) < 1" by blast
  then show ?thesis using m m3 s c by (intro conjI)
qed

section \<open>Normalisation\<close>

text \<open>
  Lowercasing followed by the first replacement keeps lowercase letters, digits and
  whitespace only; the second replacement leaves single spaces; trimming removes a space
  at either end; and splitting such a text at its spaces yields no empty token unless the
  text is empty.
\<close>

lemma space_char_space [simp]: "space_char CHR '' ''"
  by (simp add: space_char_def)

lemma char_is_space: "c = CHR '' '' \<longleftrightarrow> of_char c = (32::nat)"
proof -
  have "of_char CHR '' '' = (32::nat)" by simp
  then show ?thesis by (metis of_char_eq_iff)
qed

lemma char_is_underscore: "c = CHR ''_'' \<longleftrightarrow> of_char c = (95::nat)"
proof -
  have "of_char CHR ''_'' = (95::nat)" by simp
  then show ?thesis by (metis of_char_eq_iff)
qed

lemma lower_alnum_not_space: "lower_alnum c \<Longrightarrow> \<not> space_char c"
  by (auto simp: lower_alnum_def space_char_def Let_def)

lemma of_char_toLowerCase_unit:
  "of_char (toLowerCase_unit c) = (if upper_char c then of_char c + 32 else (of_char c :: nat))"
  by (auto simp: toLowerCase_unit_def upper_char_def Let_def)

lemma lower_case_kept:
  "(\<not> space_char (toLowerCase_unit c) \<and>
    \<not> ((\<not> (word_char (toLowerCase_unit c) \<or> space_char (toLowerCase_unit c)))
        \<or> toLowerCase_unit c = CHR ''_''))
   \<longleftrightarrow> lower_alnum (toLowerCase_unit c)"
  unfolding char_is_underscore space_char_def word_char_def lower_alnum_def Let_def
    of_char_toLowerCase_unit upper_char_def
  by (cases "(65 \<le> (of_char c :: nat) \<and> of_char c \<le> (90::nat)) \<or>
              (192 \<le> (of_char c :: nat) \<and> of_char c \<le> (222::nat) \<and> of_char c \<noteq> (215::nat))")
     (simp_all, linarith+)

lemma filter_dropWhile_not:
  "filter (\<lambda>c. \<not> P c) (dropWhile P xs) = filter (\<lambda>c. \<not> P c) xs"
  by (induction xs) simp_all

lemma strip_lower_letters:
  "filter (\<lambda>c. \<not> space_char c) (strip_punct (toLowerCase s)) = filter lower_alnum (toLowerCase s)"
proof (induction s)
  case Nil
  show ?case by (simp add: strip_punct_def toLowerCase_def)
next
  case (Cons c s)
  have IH: "filter (\<lambda>c. \<not> space_char c) (strip_punct (map toLowerCase_unit s))
            = filter lower_alnum (map toLowerCase_unit s)"
    using Cons by (simp add: toLowerCase_def)
  show ?case
  proof (cases "lower_alnum (toLowerCase_unit c)")
    case True
    then show ?thesis using lower_case_kept[of c] IH
      by (auto simp: strip_punct_def toLowerCase_def)
  next
    case False
    then show ?thesis using lower_case_kept[of c] IH
      by (auto simp: strip_punct_def toLowerCase_def)
  qed
qed

lemma strip_lower_chars:
  "c \<in> set (strip_punct (toLowerCase s)) \<Longrightarrow> lower_alnum c \<or> space_char c"
proof -
  assume "c \<in> set (strip_punct (toLowerCase s))"
  then obtain c0 where c: "c = toLowerCase_unit c0"
    and k: "\<not> ((\<not> (word_char c \<or> space_char c)) \<or> c = CHR ''_'')"
    by (auto simp: strip_punct_def toLowerCase_def)
  show ?thesis using lower_case_kept[of c0] k unfolding c by blast
qed

lemma collapse_letters:
  "filter (\<lambda>c. \<not> space_char c) (collapse_spaces z) = filter (\<lambda>c. \<not> space_char c) z"
  by (induction z rule: collapse_spaces.induct) (simp_all add: filter_dropWhile_not)

lemma collapse_chars:
  "c \<in> set (collapse_spaces z) \<Longrightarrow> c = CHR '' '' \<or> (c \<in> set z \<and> \<not> space_char c)"
proof (induction z rule: collapse_spaces.induct)
  case 1
  then show ?case by simp
next
  case (2 d cs)
  show ?case
  proof (cases "space_char d")
    case True
    then have "c = CHR '' '' \<or> c \<in> set (collapse_spaces (dropWhile space_char cs))"
      using "2.prems" by simp
    then show ?thesis using "2.IH"(1)[OF True] set_dropWhileD[of c space_char cs] by auto
  next
    case False
    then have "c = d \<or> c \<in> set (collapse_spaces cs)" using "2.prems" by simp
    then show ?thesis using "2.IH"(2)[OF False] False by auto
  qed
qed

lemma collapse_head:
  "collapse_spaces (dropWhile space_char cs) = CHR '' '' # r \<Longrightarrow> False"
proof (cases "dropWhile space_char cs")
  case Nil
  then show "collapse_spaces (dropWhile space_char cs) = CHR '' '' # r \<Longrightarrow> False" by simp
next
  case (Cons d ds)
  then have "\<not> space_char d" using hd_dropWhile[of space_char cs] by auto
  then show "collapse_spaces (dropWhile space_char cs) = CHR '' '' # r \<Longrightarrow> False"
    using Cons by auto
qed

lemma collapse_no_adjacent: "\<not> adjacent_spaces (collapse_spaces z)"
proof (induction z rule: collapse_spaces.induct)
  case 1
  show ?case by (simp add: adjacent_spaces_def)
next
  case (2 d cs)
  show ?case
  proof
    assume "adjacent_spaces (collapse_spaces (d # cs))"
    then obtain u v where uv: "collapse_spaces (d # cs) = u @ CHR '' '' # CHR '' '' # v"
      unfolding adjacent_spaces_def by blast
    show False
    proof (cases "space_char d")
      case True
      then have eq: "CHR '' '' # collapse_spaces (dropWhile space_char cs) = u @ CHR '' '' # CHR '' '' # v"
        using uv by simp
      show False
      proof (cases u)
        case Nil
        then show False using eq collapse_head[of cs v] by simp
      next
        case (Cons e u')
        then have "collapse_spaces (dropWhile space_char cs) = u' @ CHR '' '' # CHR '' '' # v"
          using eq by simp
        then show False using "2.IH"(1)[OF True] unfolding adjacent_spaces_def by blast
      qed
    next
      case False
      then have eq: "d # collapse_spaces cs = u @ CHR '' '' # CHR '' '' # v"
        using uv by simp
      show False
      proof (cases u)
        case Nil
        then show False using eq False by auto
      next
        case (Cons e u')
        then have "collapse_spaces cs = u' @ CHR '' '' # CHR '' '' # v"
          using eq by simp
        then show False using "2.IH"(2)[OF False] unfolding adjacent_spaces_def by blast
      qed
    qed
  qed
qed

lemma adjacent_suffix: "adjacent_spaces (dropWhile P z) \<Longrightarrow> adjacent_spaces z"
proof -
  assume "adjacent_spaces (dropWhile P z)"
  then obtain u v where "dropWhile P z = u @ CHR '' '' # CHR '' '' # v"
    unfolding adjacent_spaces_def by blast
  then have "z = (takeWhile P z @ u) @ CHR '' '' # CHR '' '' # v"
    using takeWhile_dropWhile_id[of P z] by simp
  then show ?thesis unfolding adjacent_spaces_def by blast
qed

lemma adjacent_rev: "adjacent_spaces (rev z) \<Longrightarrow> adjacent_spaces z"
proof -
  assume "adjacent_spaces (rev z)"
  then obtain u v where "rev z = u @ CHR '' '' # CHR '' '' # v"
    unfolding adjacent_spaces_def by blast
  then have "rev (rev z) = rev (u @ CHR '' '' # CHR '' '' # v)" by simp
  then have "z = rev v @ CHR '' '' # CHR '' '' # rev u" by simp
  then show ?thesis unfolding adjacent_spaces_def by blast
qed

lemma trim_no_adjacent: "\<not> adjacent_spaces z \<Longrightarrow> \<not> adjacent_spaces (trim z)"
  unfolding trim_def using adjacent_rev adjacent_suffix by blast

lemma trim_chars: "c \<in> set (trim z) \<Longrightarrow> c \<in> set z"
proof -
  assume "c \<in> set (trim z)"
  then have "c \<in> set (dropWhile space_char (rev (dropWhile space_char z)))"
    by (simp add: trim_def)
  then have "c \<in> set (rev (dropWhile space_char z))" by (rule set_dropWhileD)
  then have "c \<in> set (dropWhile space_char z)" by simp
  then show ?thesis by (rule set_dropWhileD)
qed

lemma trim_letters:
  "filter (\<lambda>c. \<not> space_char c) (trim z) = filter (\<lambda>c. \<not> space_char c) z"
proof -
  have "filter (\<lambda>c. \<not> space_char c) (trim z)
        = rev (filter (\<lambda>c. \<not> space_char c) (dropWhile space_char (rev (dropWhile space_char z))))"
    by (simp add: trim_def rev_filter)
  also have "\<dots> = rev (filter (\<lambda>c. \<not> space_char c) (rev (dropWhile space_char z)))"
    by (simp only: filter_dropWhile_not)
  also have "\<dots> = filter (\<lambda>c. \<not> space_char c) (dropWhile space_char z)"
    by (simp add: rev_filter)
  finally show ?thesis by (simp only: filter_dropWhile_not)
qed

lemma last_dropWhile: "dropWhile P xs \<noteq> [] \<Longrightarrow> last (dropWhile P xs) = last xs"
  using takeWhile_dropWhile_id[of P xs] by (metis last_appendR)

lemma trim_ends:
  assumes "trim z \<noteq> []"
  shows "\<not> space_char (hd (trim z)) \<and> \<not> space_char (last (trim z))"
proof -
  let ?y = "dropWhile space_char z"
  let ?w = "dropWhile space_char (rev ?y)"
  have w: "?w \<noteq> []" using assms by (simp add: trim_def)
  have y: "?y \<noteq> []"
  proof
    assume a: "?y = []"
    have "?w = dropWhile space_char (rev [])" by (simp only: a)
    then show False using w by simp
  qed
  have "last (trim z) = hd ?w" using w by (simp add: trim_def last_rev)
  moreover have "\<not> space_char (hd ?w)" using w hd_dropWhile by blast
  moreover have "hd (trim z) = last ?w" using w by (simp add: trim_def hd_rev)
  moreover have "last ?w = last (rev ?y)" using w by (rule last_dropWhile)
  moreover have "last (rev ?y) = hd ?y" using y by (simp add: last_rev)
  moreover have "\<not> space_char (hd ?y)" using y hd_dropWhile by blast
  ultimately show ?thesis by simp
qed

lemma split_space_not_Nil [simp]: "split_space z \<noteq> []"
  by (cases z) simp_all

lemma concat_split_space: "concat (split_space z) = filter (\<lambda>c. c \<noteq> CHR '' '') z"
proof (induction z)
  case Nil
  show ?case by simp
next
  case (Cons c cs)
  have "hd (split_space cs) @ concat (tl (split_space cs)) = concat (split_space cs)"
    by (cases "split_space cs") simp_all
  then show ?case using Cons by simp
qed

lemma hd_split_space: "hd (split_space z) = [] \<longleftrightarrow> z = [] \<or> hd z = CHR '' ''"
  by (cases z) simp_all

lemma adjacent_Cons: "adjacent_spaces cs \<Longrightarrow> adjacent_spaces (c # cs)"
  unfolding adjacent_spaces_def by (metis append_Cons)

lemma empty_in_tl_split:
  "[] \<in> set (tl (split_space z)) \<Longrightarrow> (z \<noteq> [] \<and> last z = CHR '' '') \<or> adjacent_spaces z"
proof (induction z)
  case Nil
  then show ?case by simp
next
  case (Cons c cs)
  show ?case
  proof (cases "c = CHR '' ''")
    case False
    then have "[] \<in> set (tl (split_space cs))" using Cons.prems by simp
    then have "(cs \<noteq> [] \<and> last cs = CHR '' '') \<or> adjacent_spaces cs" by (rule Cons.IH)
    then show ?thesis using adjacent_Cons by auto
  next
    case True
    then have mem: "[] \<in> set (split_space cs)" using Cons.prems by simp
    show ?thesis
    proof (cases cs)
      case Nil
      then show ?thesis using True by simp
    next
      case (Cons d r)
      show ?thesis
      proof (cases "d = CHR '' ''")
        case True
        then have "c # cs = [] @ CHR '' '' # CHR '' '' # r" using \<open>c = CHR '' ''\<close> Cons by simp
        then show ?thesis unfolding adjacent_spaces_def by blast
      next
        case False
        then have "hd (split_space cs) \<noteq> []" using Cons by simp
        then have "[] \<in> set (tl (split_space cs))"
          using mem by (cases "split_space cs") auto
        then have "(cs \<noteq> [] \<and> last cs = CHR '' '') \<or> adjacent_spaces cs" by (rule Cons.IH)
        then show ?thesis using adjacent_Cons by auto
      qed
    qed
  qed
qed

lemma empty_in_split:
  assumes "[] \<in> set (split_space z)"
  shows "z = [] \<or> hd z = CHR '' '' \<or> last z = CHR '' '' \<or> adjacent_spaces z"
proof -
  have "hd (split_space z) = [] \<or> [] \<in> set (tl (split_space z))"
    using assms by (cases "split_space z") auto
  then show ?thesis using hd_split_space[of z] empty_in_tl_split[of z] by blast
qed

lemma normalize_text_letters:
  "filter (\<lambda>c. \<not> space_char c) (normalize_text s) = filter lower_alnum (toLowerCase s)"
  by (simp add: normalize_text_def trim_letters collapse_letters strip_lower_letters)

lemma normalize_text_chars:
  assumes "c \<in> set (normalize_text s)"
  shows "c = CHR '' '' \<or> lower_alnum c"
proof -
  have "c \<in> set (collapse_spaces (strip_punct (toLowerCase s)))"
    using assms unfolding normalize_text_def by (rule trim_chars)
  then show ?thesis using collapse_chars strip_lower_chars by blast
qed

lemma normalize_text_no_adjacent: "\<not> adjacent_spaces (normalize_text s)"
  unfolding normalize_text_def by (rule trim_no_adjacent) (rule collapse_no_adjacent)

lemma normalize_text_ends:
  "normalize_text s \<noteq> [] \<Longrightarrow>
     hd (normalize_text s) \<noteq> CHR '' '' \<and> last (normalize_text s) \<noteq> CHR '' ''"
  unfolding normalize_text_def using trim_ends space_char_space by metis

lemma tokens_concat:
  "concat (split_space (normalize_text s)) = filter lower_alnum (toLowerCase s)"
proof -
  have "filter (\<lambda>c. c \<noteq> CHR '' '') (normalize_text s)
        = filter (\<lambda>c. \<not> space_char c) (normalize_text s)"
    by (rule filter_cong[OF refl]) (use normalize_text_chars lower_alnum_not_space in auto)
  then show ?thesis by (simp add: concat_split_space normalize_text_letters)
qed


lemma tokens_nonempty:
  "split_space (normalize_text s) = [''''] \<or> (\<forall>w \<in> set (split_space (normalize_text s)). w \<noteq> [])"
proof (cases "normalize_text s = []")
  case True
  then show ?thesis by simp
next
  case False
  have "[] \<notin> set (split_space (normalize_text s))"
    using empty_in_split[of "normalize_text s"] False normalize_text_ends[OF False]
      normalize_text_no_adjacent[of s]
    by blast
  then show ?thesis by metis
qed

lemma tokens_empty_iff:
  "split_space (normalize_text s) = [''''] \<longleftrightarrow> filter lower_alnum (toLowerCase s) = []"
proof
  assume "split_space (normalize_text s) = ['''']"
  then have "concat (split_space (normalize_text s)) = []" by simp
  then show "filter lower_alnum (toLowerCase s) = []" by (simp only: tokens_concat)
next
  assume "filter lower_alnum (toLowerCase s) = []"
  then have c: "concat (split_space (normalize_text s)) = []" by (simp only: tokens_concat)
  show "split_space (normalize_text s) = ['''']"
  proof (rule ccontr)
    assume n: "split_space (normalize_text s) \<noteq> ['''']"
    then have "\<forall>w \<in> set (split_space (normalize_text s)). w \<noteq> []"
      using tokens_nonempty by blast
    moreover have "hd (split_space (normalize_text s)) \<in> set (split_space (normalize_text s))"
      by simp
    ultimately show False using c by auto
  qed
qed

lemma tokens_whitespace_only:
  assumes "\<forall>c \<in> set s. space_char c"
  shows "split_space (normalize_text s) = ['''']"
proof -
  have "\<not> lower_alnum (toLowerCase_unit c)" if "c \<in> set s" for c
  proof -
    have sp: "space_char c" using assms that by simp
    then have "\<not> upper_char c" by (auto simp: space_char_def upper_char_def Let_def)
    then have "toLowerCase_unit c = c" by (simp add: toLowerCase_unit_def)
    then show ?thesis using sp lower_alnum_not_space by auto
  qed
  then have "filter lower_alnum (toLowerCase s) = []"
    by (auto simp: toLowerCase_def filter_empty_conv)
  then show ?thesis by (simp only: tokens_empty_iff)
qed






section \<open>The score\<close>




lemma calculatedScore_range:
  assumes "T \<noteq> []"
  shows "\<exists>p::int. calculatedScore T S = Num (of_int p) \<and> 0 \<le> p \<and> p \<le> 100"
proof -
  have "matches (alignLoop T S) \<le> length T" by (rule matches_le_length)
  moreover have "0 < length T" using assms by simp
  ultimately show ?thesis
    using percentage_range[of "matches (alignLoop T S)" "length T"]
    unfolding calculatedScore_def by blast
qed

lemma no_speech_cases:
  "(length S = 0 \<or> (length S = 1 \<and> S ! 0 = '''')) \<longleftrightarrow> S = [] \<or> S = ['''']"
proof (cases S)
  case Nil
  then show ?thesis by simp
next
  case (Cons w ws)
  then show ?thesis by (cases ws) auto
qed

lemma scoreWords_no_speech:
  "S = [] \<or> S = [''''] \<Longrightarrow> scoreWords T S st = st\<lparr>pronunciationScore := Some (Num 0)\<rparr>"
  using no_speech_cases[of S] by (simp add: scoreWords_def)

lemma scoreWords_speech:
  assumes "S \<noteq> []" "S \<noteq> ['''']"
  shows "scoreWords T S st =
     st\<lparr>pronunciationScore := Some (Math_min 100 (calculatedScore T S)),
        score := \<lparr>correct = (if js_ge (calculatedScore T S) 70 then 1 else 0), total' = 1\<rparr>\<rparr>"
proof -
  have "\<not> (length S = 0 \<or> (length S = 1 \<and> S ! 0 = ''''))"
    using no_speech_cases[of S] assms by blast
  then show ?thesis unfolding scoreWords_def by (simp only: if_False)
qed


text \<open>
  Claim C5. For every target sequence, when the spoken sequence is empty or is the single
  empty token, the scorer sets the pronunciation score to 0 and returns at once: nothing
  else of the state changes, whatever the target words are. A spoken text of whitespace
  only is such a case.
\<close>

theorem no_speech_scores_zero:
  "(spokenWords = [] \<or> spokenWords = [''''] \<longrightarrow>
      scoreWords targetWords spokenWords st = st\<lparr>pronunciationScore := Some (Num 0)\<rparr>)
   \<and> ((\<forall>c \<in> set spokenText. space_char c) \<longrightarrow>
      calculateSpeakingScore (Some story) spokenText st = st\<lparr>pronunciationScore := Some (Num 0)\<rparr>)"
  using scoreWords_no_speech tokens_whitespace_only
  by (simp add: calculateSpeakingScore_def)

theorem no_speech_scores_zero_witness:
  "scoreWords [''i'', ''am''] [''''] initialState
     = \<lparr>pronunciationScore = Some (Num 0), score = \<lparr>correct = 0, total' = 0\<rparr>\<rparr>
   \<and> calculateSpeakingScore (Some ''I am.'') ''   '' initialState
     = \<lparr>pronunciationScore = Some (Num 0), score = \<lparr>correct = 0, total' = 0\<rparr>\<rparr>"
proof -
  have "\<forall>c \<in> set ''   ''. space_char c" by simp
  then show ?thesis
    using no_speech_scores_zero[of "['''']" "[''i'', ''am'']" initialState "''   ''" "''I am.''"]
    by (simp add: initialState_def)
qed







lemma one_four_matches:
  "matches (alignLoop [''one'', ''two'', ''three'', ''four''] [''one'', ''four'']) = 2"
  by (simp add: eval_simps)

lemma one_four_walk:
  "map (matchedAt [''one'', ''two'', ''three'', ''four''] [''one'', ''four'']) [0, 1, 2, 3]
     = [Some 0, None, None, Some 1]"
  by (simp add: eval_simps)

lemma pct_2_of_4: "Math_round (js_times (js_div 2 4) 100) = Num 50"
  by code_simp

lemma one_four_calculated:
  "calculatedScore [''one'', ''two'', ''three'', ''four''] [''one'', ''four''] = Num 50"
proof -
  have "length [''one'', ''two'', ''three'', ''four''] = 4" by simp
  then show ?thesis unfolding calculatedScore_def by (simp only: one_four_matches pct_2_of_4)
qed

lemma one_four_story:
  "split_space (normalize_text ''One, two, three, four.'') = [''one'', ''two'', ''three'', ''four'']"
  by code_simp

lemma one_four_spoken: "split_space (normalize_text ''one four'') = [''one'', ''four'']"
  by code_simp

text \<open>
  Claim C9. For the target words \<open>one, two, three, four\<close> and the spoken words
  \<open>one, four\<close> the scorer returns the score 50: the cursor walk matches \<open>one\<close> at index 0
  and \<open>four\<close> at index 1, and \<open>two\<close> and \<open>three\<close> find nothing, so 2 of 4 target words
  are matched.
\<close>

theorem one_four_scores_50:
  "matches (alignLoop [''one'', ''two'', ''three'', ''four''] [''one'', ''four'']) = 2
   \<and> map (matchedAt [''one'', ''two'', ''three'', ''four''] [''one'', ''four'']) [0, 1, 2, 3]
        = [Some 0, None, None, Some 1]
   \<and> scoreWords [''one'', ''two'', ''three'', ''four''] [''one'', ''four''] st
        = st\<lparr>pronunciationScore := Some (Num 50), score := \<lparr>correct = 0, total' = 1\<rparr>\<rparr>
   \<and> calculateSpeakingScore (Some ''One, two, three, four.'') ''one four'' st
        = st\<lparr>pronunciationScore := Some (Num 50), score := \<lparr>correct = 0, total' = 1\<rparr>\<rparr>"
proof -
  have s: "scoreWords [''one'', ''two'', ''three'', ''four''] [''one'', ''four''] st
        = st\<lparr>pronunciationScore := Some (Num 50), score := \<lparr>correct = 0, total' = 1\<rparr>\<rparr>"
    by (simp add: scoreWords_speech one_four_calculated Math_min_def js_ge_def)
  then have "calculateSpeakingScore (Some ''One, two, three, four.'') ''one four'' st
        = st\<lparr>pronunciationScore := Some (Num 50), score := \<lparr>correct = 0, total' = 1\<rparr>\<rparr>"
    by (simp add: calculateSpeakingScore_def one_four_story one_four_spoken)
  then show ?thesis using s one_four_matches one_four_walk by (intro conjI)
qed

text \<open>
  Claim C10. Whenever the score is computed from a spoken sequence that is neither empty
  nor the single empty token, the score record of the session is set to
  \<open>{correct: 1, total: 1}\<close> exactly when the computed percentage is at least 70, and to
  \<open>{correct: 0, total: 1}\<close> otherwise; for a non-empty target the computed percentage is
  the pronunciation score that is shown. A spoken text yields such a sequence exactly
  when it holds a letter or a digit, and then the whole function sets the record in this
  way (the story always yields at least one target token).
\<close>

theorem pass_threshold_70:
  assumes "spokenWords \<noteq> []" "spokenWords \<noteq> ['''']"
  shows "score (scoreWords targetWords spokenWords st)
           = \<lparr>correct = (if js_ge (calculatedScore targetWords spokenWords) 70 then 1 else 0),
              total' = 1\<rparr>
   \<and> (targetWords \<noteq> [] \<longrightarrow>
        (\<exists>p::int. pronunciationScore (scoreWords targetWords spokenWords st) = Some (Num (of_int p))
           \<and> score (scoreWords targetWords spokenWords st)
               = \<lparr>correct = (if 70 \<le> p then 1 else 0), total' = 1\<rparr>))
   \<and> (split_space (normalize_text spokenText) = spokenWords \<longrightarrow>
        filter lower_alnum (toLowerCase spokenText) \<noteq> []
        \<and> (\<exists>p::int. pronunciationScore (calculateSpeakingScore (Some story) spokenText st)
                      = Some (Num (of_int p))
             \<and> score (calculateSpeakingScore (Some story) spokenText st)
                 = \<lparr>correct = (if 70 \<le> p then 1 else 0), total' = 1\<rparr>))"
proof -
  have 1: "score (scoreWords targetWords spokenWords st)
           = \<lparr>correct = (if js_ge (calculatedScore targetWords spokenWords) 70 then 1 else 0),
              total' = 1\<rparr>"
    by (simp add: scoreWords_speech[OF assms])
  have 2: "\<exists>p::int. pronunciationScore (scoreWords targetWords spokenWords st) = Some (Num (of_int p))
           \<and> score (scoreWords targetWords spokenWords st)
               = \<lparr>correct = (if 70 \<le> p then 1 else 0), total' = 1\<rparr>"
    if nonempty: "targetWords \<noteq> []"
  proof -
    obtain p :: int where p: "calculatedScore targetWords spokenWords = Num (of_int p)" "0 \<le> p" "p \<le> 100"
      using calculatedScore_range[OF nonempty] by blast
    have "pronunciationScore (scoreWords targetWords spokenWords st) = Some (Num (of_int p))"
      using p by (simp add: scoreWords_speech[OF assms] Math_min_def)
    moreover have "score (scoreWords targetWords spokenWords st)
               = \<lparr>correct = (if 70 \<le> p then 1 else 0), total' = 1\<rparr>"
      using p(1) by (simp add: 1 js_ge_def)
    ultimately show ?thesis by blast
  qed
  have 3: "filter lower_alnum (toLowerCase spokenText) \<noteq> []
        \<and> (\<exists>p::int. pronunciationScore (calculateSpeakingScore (Some story) spokenText st)
                      = Some (Num (of_int p))
             \<and> score (calculateSpeakingScore (Some story) spokenText st)
                 = \<lparr>correct = (if 70 \<le> p then 1 else 0), total' = 1\<rparr>)"
    if tokens: "split_space (normalize_text spokenText) = spokenWords"
  proof -
    let ?T = "split_space (normalize_text story)" and ?S = "split_space (normalize_text spokenText)"
    have S: "?S \<noteq> []" "?S \<noteq> ['''']" using assms tokens by simp_all
    have "filter lower_alnum (toLowerCase spokenText) \<noteq> []"
      using S(2) tokens_empty_iff[of spokenText] by simp
    moreover obtain p :: int where p: "calculatedScore ?T ?S = Num (of_int p)" "0 \<le> p" "p \<le> 100"
      using calculatedScore_range[of ?T ?S] by auto
    have "pronunciationScore (calculateSpeakingScore (Some story) spokenText st) = Some (Num (of_int p))
          \<and> score (calculateSpeakingScore (Some story) spokenText st)
                 = \<lparr>correct = (if 70 \<le> p then 1 else 0), total' = 1\<rparr>"
      using p by (simp add: calculateSpeakingScore_def scoreWords_speech[OF S] Math_min_def js_ge_def)
    ultimately show ?thesis by blast
  qed
  show ?thesis using 1 2 3 by blast
qed

lemma pct_3_of_4: "Math_round (js_times (js_div 3 4) 100) = Num 75"
  by code_simp

lemma three_of_four_matches:
  "matches (alignLoop [''a'', ''big'', ''red'', ''bus''] [''a'', ''big'', ''bus'']) = 3"
  by (simp add: eval_simps)

lemma red_bus_story: "split_space (normalize_text ''A big, red bus.'') = [''a'', ''big'', ''red'', ''bus'']"
  by code_simp

lemma red_bus_spoken: "split_space (normalize_text ''a big bus'') = [''a'', ''big'', ''bus'']"
  by code_simp

theorem pass_threshold_70_witness:
  "score (scoreWords [''a'', ''big'', ''red'', ''bus''] [''a'', ''big'', ''bus''] initialState)
     = \<lparr>correct = 1, total' = 1\<rparr>
   \<and> score (calculateSpeakingScore (Some ''A big, red bus.'') ''a big bus'' initialState)
     = \<lparr>correct = 1, total' = 1\<rparr>"
proof -
  let ?T = "[''a'', ''big'', ''red'', ''bus'']" and ?S = "[''a'', ''big'', ''bus'']"
  have c: "calculatedScore ?T ?S = Num 75"
  proof -
    have "length ?T = 4" by simp
    then show ?thesis unfolding calculatedScore_def by (simp only: three_of_four_matches pct_3_of_4)
  qed
  have S: "?S \<noteq> []" "?S \<noteq> ['''']" by simp_all
  note t = pass_threshold_70[OF S, of ?T initialState "''a big bus''" "''A big, red bus.''"]
  have 1: "score (scoreWords ?T ?S initialState) = \<lparr>correct = 1, total' = 1\<rparr>"
    using t[THEN conjunct1] by (simp add: c js_ge_def)
  obtain p :: int where p:
    "pronunciationScore (calculateSpeakingScore (Some ''A big, red bus.'') ''a big bus'' initialState)
       = Some (Num (of_int p))"
    "score (calculateSpeakingScore (Some ''A big, red bus.'') ''a big bus'' initialState)
       = \<lparr>correct = (if 70 \<le> p then 1 else 0), total' = 1\<rparr>"
    using t[THEN conjunct2, THEN conjunct2] red_bus_spoken by blast
  have "pronunciationScore (calculateSpeakingScore (Some ''A big, red bus.'') ''a big bus'' initialState)
       = Some (Num 75)"
    by (simp add: calculateSpeakingScore_def red_bus_story red_bus_spoken scoreWords_speech[OF S] c
        Math_min_def)
  then have "(of_int p :: rat) = of_int 75" using p(1) by simp
  then have "p = 75" by (simp only: of_int_eq_iff)
  then show ?thesis using 1 p(2) by simp
qed

section \<open>A filler word in the spoken sequence\<close>

text \<open>
  Inserting a word at position \<open>|A|\<close> moves every later word one place to the right. A
  search whose cursor is past that position sees the same window, shifted; a search whose
  cursor is before it sees the filler and loses the last word of its window.
\<close>

lemma nth_insert_before: "j < length A \<Longrightarrow> (A @ f # B) ! j = (A @ B) ! j"
  by (simp add: nth_append)

lemma nth_insert_at: "(A @ f # B) ! length A = f"
  by simp

lemma nth_insert_after: "length A \<le> j \<Longrightarrow> (A @ f # B) ! Suc j = (A @ B) ! j"
  by (simp add: nth_append Suc_diff_le)

lemma searchWindow_shift:
  assumes "length A \<le> c"
  shows "searchWindow t (A @ f # B) (Suc c) (Suc c) = map_option Suc (searchWindow t (A @ B) c c)"
proof (cases "searchWindow t (A @ B) c c")
  case None
  have "searchWindow t (A @ f # B) (Suc c) (Suc c) = None"
  proof (rule searchWindow_NoneI, intro allI impI)
    fix j
    assume j: "Suc c \<le> j \<and> j < min (Suc c + SEARCH_WINDOW) (length (A @ f # B))"
    then obtain j' where j': "j = Suc j'" by (cases j) auto
    have "c \<le> j'" "j' < min (c + SEARCH_WINDOW) (length (A @ B))" using j j' by auto
    then have "\<not> candidateMatches t ((A @ B) ! j')" using searchWindow_None[OF None] by blast
    moreover have "(A @ f # B) ! j = (A @ B) ! j'"
      unfolding j' using assms \<open>c \<le> j'\<close> by (intro nth_insert_after) simp
    ultimately show "\<not> candidateMatches t ((A @ f # B) ! j)" by simp
  qed
  then show ?thesis using None by simp
next
  case (Some k)
  from searchWindow_Some[OF Some] have k: "c \<le> k" "k < min (c + SEARCH_WINDOW) (length (A @ B))"
    "candidateMatches t ((A @ B) ! k)" "\<forall>j. c \<le> j \<and> j < k \<longrightarrow> \<not> candidateMatches t ((A @ B) ! j)"
    by auto
  have "searchWindow t (A @ f # B) (Suc c) (Suc c) = Some (Suc k)"
  proof (rule searchWindow_SomeI)
    show "Suc c \<le> Suc k" using k(1) by simp
    show "Suc k < min (Suc c + SEARCH_WINDOW) (length (A @ f # B))" using k(2) by simp
    have "(A @ f # B) ! Suc k = (A @ B) ! k" using assms k(1) by (intro nth_insert_after) simp
    then show "candidateMatches t ((A @ f # B) ! Suc k)" using k(3) by simp
    show "\<forall>j. Suc c \<le> j \<and> j < Suc k \<longrightarrow> \<not> candidateMatches t ((A @ f # B) ! j)"
    proof (intro allI impI)
      fix j
      assume j: "Suc c \<le> j \<and> j < Suc k"
      then obtain j' where j': "j = Suc j'" by (cases j) auto
      have "c \<le> j'" "j' < k" using j j' by auto
      then have "\<not> candidateMatches t ((A @ B) ! j')" using k(4) by blast
      moreover have "(A @ f # B) ! j = (A @ B) ! j'"
        unfolding j' using assms \<open>c \<le> j'\<close> by (intro nth_insert_after) simp
      ultimately show "\<not> candidateMatches t ((A @ f # B) ! j)" by simp
    qed
  qed
  then show ?thesis using Some by simp
qed

lemma searchWindow_filler_None:
  assumes "\<not> candidateMatches t f" "c \<le> length A" "searchWindow t (A @ B) c c = None"
  shows "searchWindow t (A @ f # B) c c = None"
proof (rule searchWindow_NoneI, intro allI impI)
  fix j
  assume j: "c \<le> j \<and> j < min (c + SEARCH_WINDOW) (length (A @ f # B))"
  consider "j < length A" | "j = length A" | "length A < j" by linarith
  then show "\<not> candidateMatches t ((A @ f # B) ! j)"
  proof cases
    case 1
    then have "j < min (c + SEARCH_WINDOW) (length (A @ B))" using j by simp
    then have "\<not> candidateMatches t ((A @ B) ! j)" using searchWindow_None[OF assms(3)] j by blast
    then show ?thesis using nth_insert_before[OF 1, of f B] by simp
  next
    case 2
    then show ?thesis using assms(1) by simp
  next
    case 3
    then obtain j' where j': "j = Suc j'" by (cases j) auto
    have "c \<le> j'" "j' < min (c + SEARCH_WINDOW) (length (A @ B))" "length A \<le> j'"
      using j j' 3 assms(2) by auto
    then have "\<not> candidateMatches t ((A @ B) ! j')" using searchWindow_None[OF assms(3)] by blast
    then show ?thesis unfolding j' using nth_insert_after[OF \<open>length A \<le> j'\<close>, of f B] by simp
  qed
qed

lemma searchWindow_filler_before:
  assumes "searchWindow t (A @ B) c c = Some k" "k < length A"
  shows "searchWindow t (A @ f # B) c c = Some k"
proof -
  from searchWindow_Some[OF assms(1)] have k: "c \<le> k" "k < min (c + SEARCH_WINDOW) (length (A @ B))"
    "candidateMatches t ((A @ B) ! k)" "\<forall>j. c \<le> j \<and> j < k \<longrightarrow> \<not> candidateMatches t ((A @ B) ! j)"
    by auto
  show ?thesis
  proof (rule searchWindow_SomeI)
    show "c \<le> k" by (rule k(1))
    show "k < min (c + SEARCH_WINDOW) (length (A @ f # B))" using k(2) by simp
    show "candidateMatches t ((A @ f # B) ! k)" using k(3) nth_insert_before[OF assms(2), of f B] by simp
    show "\<forall>j. c \<le> j \<and> j < k \<longrightarrow> \<not> candidateMatches t ((A @ f # B) ! j)"
    proof (intro allI impI)
      fix j assume j: "c \<le> j \<and> j < k"
      then have "j < length A" using assms(2) by simp
      then show "\<not> candidateMatches t ((A @ f # B) ! j)"
        using k(4) j nth_insert_before[of j A f B] by simp
    qed
  qed
qed

lemma searchWindow_filler_after:
  assumes "\<not> candidateMatches t f" "c \<le> length A"
    and "searchWindow t (A @ B) c c = Some k" "length A \<le> k" "Suc k < c + SEARCH_WINDOW"
  shows "searchWindow t (A @ f # B) c c = Some (Suc k)"
proof -
  from searchWindow_Some[OF assms(3)] have k: "c \<le> k" "k < min (c + SEARCH_WINDOW) (length (A @ B))"
    "candidateMatches t ((A @ B) ! k)" "\<forall>j. c \<le> j \<and> j < k \<longrightarrow> \<not> candidateMatches t ((A @ B) ! j)"
    by auto
  show ?thesis
  proof (rule searchWindow_SomeI)
    show "c \<le> Suc k" using k(1) by simp
    show "Suc k < min (c + SEARCH_WINDOW) (length (A @ f # B))" using k(2) assms(5) by simp
    show "candidateMatches t ((A @ f # B) ! Suc k)"
      using k(3) nth_insert_after[OF assms(4), of f B] by simp
    show "\<forall>j. c \<le> j \<and> j < Suc k \<longrightarrow> \<not> candidateMatches t ((A @ f # B) ! j)"
    proof (intro allI impI)
      fix j assume j: "c \<le> j \<and> j < Suc k"
      consider "j < length A" | "j = length A" | "length A < j" by linarith
      then show "\<not> candidateMatches t ((A @ f # B) ! j)"
      proof cases
        case 1
        then have "j < k" using assms(4) by simp
        then show ?thesis using k(4) j nth_insert_before[OF 1, of f B] by simp
      next
        case 2
        then show ?thesis using assms(1) by simp
      next
        case 3
        then obtain j' where j': "j = Suc j'" by (cases j) auto
        have "c \<le> j'" "j' < k" "length A \<le> j'" using j j' 3 assms(2) by auto
        then have "\<not> candidateMatches t ((A @ B) ! j')" using k(4) by blast
        then show ?thesis unfolding j' using nth_insert_after[OF \<open>length A \<le> j'\<close>, of f B] by simp
      qed
    qed
  qed
qed

lemma fold_shift:
  assumes "length A \<le> c"
  shows "fold (matchWord (A @ f # B)) T \<lparr>matches = m, spokenIdx = Suc c\<rparr>
         = (let r = fold (matchWord (A @ B)) T \<lparr>matches = m, spokenIdx = c\<rparr>
            in \<lparr>matches = matches r, spokenIdx = Suc (spokenIdx r)\<rparr>)"
  using assms
proof (induction T arbitrary: m c)
  case Nil
  show ?case by simp
next
  case (Cons t T)
  show ?case
  proof (cases "searchWindow t (A @ B) c c")
    case None
    then have "searchWindow t (A @ f # B) (Suc c) (Suc c) = None"
      using searchWindow_shift[OF Cons.prems, of t f B] by simp
    then show ?thesis using None Cons.IH[OF Cons.prems, of m] by (simp add: matchWord_def)
  next
    case (Some k)
    then have s: "searchWindow t (A @ f # B) (Suc c) (Suc c) = Some (Suc k)"
      using searchWindow_shift[OF Cons.prems, of t f B] by simp
    have "length A \<le> Suc k" using searchWindow_Some[OF Some] Cons.prems by simp
    from Cons.IH[OF this, of "m + 1"] show ?thesis using Some s by (simp add: matchWord_def)
  qed
qed

lemma alignLoop_from: "alignLoop T S = fold (matchWord S) (drop k T) (stateAt T S k)"
proof -
  have "fold (matchWord S) (take k T @ drop k T) \<lparr>matches = 0, spokenIdx = 0\<rparr>
        = fold (matchWord S) (drop k T) (stateAt T S k)"
    unfolding fold_append by (simp add: stateAt_def)
  then show ?thesis by (simp add: alignLoop_def)
qed

lemma stateAt_filler_prefix:
  assumes filler: "\<forall>t \<in> set T. \<not> candidateMatches t f"
    and k: "k < length T" "matchedAt T (A @ B) k = Some (length A)"
    and j: "j \<le> k"
  shows "stateAt T (A @ f # B) j = stateAt T (A @ B) j"
  using j
proof (induction j)
  case 0
  show ?case by (simp add: stateAt_0)
next
  case (Suc j)
  then have IH: "stateAt T (A @ f # B) j = stateAt T (A @ B) j" and jk: "j < k" by simp_all
  have jT: "j < length T" using jk k(1) by simp
  let ?c = "spokenIdx (stateAt T (A @ B) j)"
  have "?c \<le> spokenIdx (stateAt T (A @ B) k)" using jk by (intro cursor_mono) simp
  moreover have "spokenIdx (stateAt T (A @ B) k) \<le> length A"
    using stateAt_step[OF k(1), of "A @ B"] k(2) by simp
  ultimately have c: "?c \<le> length A" by simp
  have nf: "\<not> candidateMatches (T ! j) f" using filler jT by simp
  have "searchWindow (T ! j) (A @ f # B) ?c ?c = searchWindow (T ! j) (A @ B) ?c ?c"
  proof (cases "matchedAt T (A @ B) j")
    case None
    then have n: "searchWindow (T ! j) (A @ B) ?c ?c = None" by (simp add: matchedAt_def)
    show ?thesis using searchWindow_filler_None[OF nf c n] n by simp
  next
    case (Some i)
    then have s: "searchWindow (T ! j) (A @ B) ?c ?c = Some i" by (simp add: matchedAt_def)
    have "i < length A" using matched_increasing[OF jk k(1) Some k(2)] .
    then show ?thesis using searchWindow_filler_before[OF s] s by simp
  qed
  then show ?case using IH jT by (simp add: stateAt_Suc matchWord_def)
qed

lemma filler_keeps_matches:
  assumes filler: "\<forall>t \<in> set T. \<not> candidateMatches t f"
    and k: "k < length T" "matchedAt T (A @ B) k = Some (length A)"
    and window: "length A + 1 < spokenIdx (stateAt T (A @ B) k) + SEARCH_WINDOW"
  shows "matches (alignLoop T (A @ f # B)) = matches (alignLoop T (A @ B))"
proof -
  let ?c = "spokenIdx (stateAt T (A @ B) k)" and ?m = "matches (stateAt T (A @ B) k)"
  have pre: "stateAt T (A @ f # B) k = stateAt T (A @ B) k"
    by (rule stateAt_filler_prefix[OF filler k order_refl])
  have s: "searchWindow (T ! k) (A @ B) ?c ?c = Some (length A)"
    using k(2) by (simp add: matchedAt_def)
  have c: "?c \<le> length A" using searchWindow_Some[OF s] by simp
  have nf: "\<not> candidateMatches (T ! k) f" using filler k(1) by simp
  have s': "searchWindow (T ! k) (A @ f # B) ?c ?c = Some (Suc (length A))"
    using searchWindow_filler_after[OF nf c s order_refl] window by simp
  have old: "stateAt T (A @ B) (Suc k) = \<lparr>matches = ?m + 1, spokenIdx = length A + 1\<rparr>"
    using s k(1) by (simp add: stateAt_Suc matchWord_def)
  have new: "stateAt T (A @ f # B) (Suc k) = \<lparr>matches = ?m + 1, spokenIdx = Suc (length A + 1)\<rparr>"
    using s' k(1) pre by (simp add: stateAt_Suc matchWord_def)
  have "alignLoop T (A @ f # B)
        = fold (matchWord (A @ f # B)) (drop (Suc k) T) \<lparr>matches = ?m + 1, spokenIdx = Suc (length A + 1)\<rparr>"
    using alignLoop_from[of T "A @ f # B" "Suc k"] new by simp
  moreover have "alignLoop T (A @ B)
        = fold (matchWord (A @ B)) (drop (Suc k) T) \<lparr>matches = ?m + 1, spokenIdx = length A + 1\<rparr>"
    using alignLoop_from[of T "A @ B" "Suc k"] old by simp
  ultimately show ?thesis
    using fold_shift[of A "length A + 1" f B "drop (Suc k) T" "?m + 1"] by (simp add: Let_def)
qed

text \<open>
  Claim C8, as amended. Let a filler word that matches no target word (neither exactly nor
  within the threshold) be inserted into the spoken sequence immediately before a word
  \<open>w\<close> that some target word is matched to. If \<open>w\<close>, moved one place to the right by the
  insertion, still lies within the 6-word window of the search that matched it, the
  number of matched target words and hence the score stay the same; in particular the
  score does not decrease.

  The claim as stated asks only that the filler lie within that window, which it always
  does. It fails when \<open>w\<close> was the last word of the window: the insertion pushes \<open>w\<close>
  out, the cursor stays behind, and all later target words can miss as well (the
  counterexample below: the score drops from 100 to 0 for three target words).
\<close>

theorem filler_within_window:
  assumes "\<forall>t \<in> set targetWords. \<not> candidateMatches t filler"
    and "k < length targetWords"
    and "matchedAt targetWords (S1 @ w # S2) k = Some (length S1)"
    and "length S1 + 1 < spokenIdx (stateAt targetWords (S1 @ w # S2) k) + 6"
  shows "matches (alignLoop targetWords (S1 @ filler # w # S2))
           = matches (alignLoop targetWords (S1 @ w # S2))
   \<and> calculatedScore targetWords (S1 @ filler # w # S2) = calculatedScore targetWords (S1 @ w # S2)
   \<and> (S1 @ w # S2 \<noteq> [''''] \<longrightarrow>
        scoreWords targetWords (S1 @ filler # w # S2) st = scoreWords targetWords (S1 @ w # S2) st)"
proof -
  have m: "matches (alignLoop targetWords (S1 @ filler # w # S2))
           = matches (alignLoop targetWords (S1 @ w # S2))"
    using filler_keeps_matches[OF assms(1,2,3)] assms(4) by (simp add: SEARCH_WINDOW_def)
  then have c: "calculatedScore targetWords (S1 @ filler # w # S2)
                = calculatedScore targetWords (S1 @ w # S2)"
    by (simp add: calculatedScore_def)
  have "scoreWords targetWords (S1 @ filler # w # S2) st = scoreWords targetWords (S1 @ w # S2) st"
    if n: "S1 @ w # S2 \<noteq> ['''']"
  proof -
    have "S1 @ filler # w # S2 \<noteq> []" "S1 @ w # S2 \<noteq> []" by simp_all
    moreover have "S1 @ filler # w # S2 \<noteq> ['''']" by (cases S1) simp_all
    ultimately show ?thesis using n c by (simp add: scoreWords_speech)
  qed
  then show ?thesis using m c by blast
qed

lemma filler_example_fillers:
  "\<not> candidateMatches ''red'' ''like'' \<and> \<not> candidateMatches ''blue'' ''like''
   \<and> \<not> candidateMatches ''green'' ''like''"
  by (simp add: candidateMatches_def allowedEdits_def lev_eval)

theorem filler_within_window_witness:
  "matches (alignLoop [''red'', ''blue''] ([''um''] @ ''like'' # ''red'' # [''blue'']))
     = matches (alignLoop [''red'', ''blue''] ([''um''] @ ''red'' # [''blue'']))
   \<and> matches (alignLoop [''red'', ''blue''] ([''um''] @ ''red'' # [''blue''])) = 2"
proof -
  have 1: "\<forall>t \<in> set [''red'', ''blue'']. \<not> candidateMatches t ''like''"
    using filler_example_fillers by simp
  have 2: "(0::nat) < length [''red'', ''blue'']" by simp
  have 3: "matchedAt [''red'', ''blue''] ([''um''] @ ''red'' # [''blue'']) 0 = Some (length [''um''])"
    by (simp add: eval_simps)
  have 4: "length [''um''] + 1 < spokenIdx (stateAt [''red'', ''blue''] ([''um''] @ ''red'' # [''blue'']) 0) + 6"
    by (simp add: stateAt_0)
  have "matches (alignLoop [''red'', ''blue''] ([''um''] @ ''red'' # [''blue''])) = 2"
    by (simp add: eval_simps)
  then show ?thesis using filler_within_window[OF 1 2 3 4, of initialState] by simp
qed

lemma pct_3_of_3: "Math_min 100 (Math_round (js_times (js_div 3 3) 100)) = Num 100"
  by code_simp

lemma pct_0_of_3: "Math_min 100 (Math_round (js_times (js_div 0 3) 100)) = Num 0"
  by code_simp

theorem filler_at_window_end_counterexample:
  "\<not> candidateMatches ''red'' ''like'' \<and> \<not> candidateMatches ''blue'' ''like''
   \<and> \<not> candidateMatches ''green'' ''like''
   \<and> matchedAt [''red'', ''blue'', ''green'']
        ([''um'', ''um'', ''um'', ''um'', ''um''] @ ''red'' # [''blue'', ''green'']) 0 = Some 5
   \<and> spokenIdx (stateAt [''red'', ''blue'', ''green'']
        ([''um'', ''um'', ''um'', ''um'', ''um''] @ ''red'' # [''blue'', ''green'']) 0) = 0
   \<and> length [''um'', ''um'', ''um'', ''um'', ''um''] = 5 \<and> (5::nat) < 0 + SEARCH_WINDOW
   \<and> matches (alignLoop [''red'', ''blue'', ''green'']
        ([''um'', ''um'', ''um'', ''um'', ''um''] @ ''red'' # [''blue'', ''green''])) = 3
   \<and> matches (alignLoop [''red'', ''blue'', ''green'']
        ([''um'', ''um'', ''um'', ''um'', ''um''] @ ''like'' # ''red'' # [''blue'', ''green''])) = 0
   \<and> pronunciationScore (scoreWords [''red'', ''blue'', ''green'']
        ([''um'', ''um'', ''um'', ''um'', ''um''] @ ''red'' # [''blue'', ''green'']) initialState)
        = Some (Num 100)
   \<and> pronunciationScore (scoreWords [''red'', ''blue'', ''green'']
        ([''um'', ''um'', ''um'', ''um'', ''um''] @ ''like'' # ''red'' # [''blue'', ''green'']) initialState)
        = Some (Num 0)"
proof -
  let ?T = "[''red'', ''blue'', ''green'']"
  let ?S = "[''um'', ''um'', ''um'', ''um'', ''um''] @ ''red'' # [''blue'', ''green'']"
  let ?S' = "[''um'', ''um'', ''um'', ''um'', ''um''] @ ''like'' # ''red'' # [''blue'', ''green'']"
  have a: "matchedAt ?T ?S 0 = Some 5" by (simp add: eval_simps)
  have b: "spokenIdx (stateAt ?T ?S 0) = 0" by (simp add: stateAt_0)
  have c: "matches (alignLoop ?T ?S) = 3" by (simp add: eval_simps)
  have d: "matches (alignLoop ?T ?S') = 0" by (simp add: eval_simps)
  have l: "length ?T = 3" by simp
  have "calculatedScore ?T ?S = Math_round (js_times (js_div 3 3) 100)"
    unfolding calculatedScore_def by (simp only: c l)
  then have e: "pronunciationScore (scoreWords ?T ?S initialState) = Some (Num 100)"
    using pct_3_of_3 by (simp add: scoreWords_speech)
  have "calculatedScore ?T ?S' = Math_round (js_times (js_div 0 3) 100)"
    unfolding calculatedScore_def by (simp only: d l)
  then have f: "pronunciationScore (scoreWords ?T ?S' initialState) = Some (Num 0)"
    using pct_0_of_3 by (simp add: scoreWords_speech)
  have g: "length [''um'', ''um'', ''um'', ''um'', ''um''] = 5 \<and> (5::nat) < 0 + SEARCH_WINDOW"
    by (simp add: SEARCH_WINDOW_def)
  show ?thesis using filler_example_fillers a b c d e f g by (intro conjI) simp_all
qed

end
